theory Spec2Isabelle
  imports Main "HOL-Library.Word" "HOL-Library.Product_Lexorder"
begin

unbundle bit_operations_syntax

section \<open>Data model\<close>

text \<open>
  Python integers are unbounded: they are modelled as \<open>int\<close>. A \<open>bytearray\<close> (and a
  \<open>memoryview\<close> over one) is a list of bytes; reading an element gives an integer in
  \<open>0..255\<close>, which is \<open>uint\<close> of the byte.
\<close>

type_synonym byte = "8 word"

datatype error = ValueError | IndexError | NameError

definition bind_err :: "error + 'a \<Rightarrow> ('a \<Rightarrow> error + 'b) \<Rightarrow> error + 'b" where
  "bind_err r f = (case r of Inl e \<Rightarrow> Inl e | Inr x \<Rightarrow> f x)"

text \<open>
  \<open>bytearray.append(i)\<close> raises \<open>ValueError\<close> unless \<open>0 \<le> i < 256\<close>.
\<close>

definition bytearray_append :: "byte list \<Rightarrow> int \<Rightarrow> error + byte list" where
  "bytearray_append b i =
     (if 0 \<le> i \<and> i < 256 then Inr (b @ [word_of_int i]) else Inl ValueError)"

text \<open>
  The slice \<open>b[n:]\<close>: a negative \<open>n\<close> counts from the end, and no slice raises.
\<close>

definition slice_from :: "'a list \<Rightarrow> int \<Rightarrow> 'a list" where
  "slice_from b n =
     (if n < 0 then drop (nat (int (length b) + n)) b else drop (nat n) b)"

section \<open>Byte codec: Encoder\<close>

definition Encoder_uint8 :: "byte list \<Rightarrow> int \<Rightarrow> error + byte list" where
  "Encoder_uint8 b i = bytearray_append b i"

text \<open>
  \<open>Encoder.int32\<close> extends the buffer with four masked values; a value masked with
  \<open>0xFF\<close> always passes the range check of the bytearray.
\<close>

definition Encoder_int32 :: "byte list \<Rightarrow> int \<Rightarrow> byte list" where
  "Encoder_int32 b i =
     b @ [word_of_int (i AND 0xFF), word_of_int (drop_bit 8 i AND 0xFF),
          word_of_int (drop_bit 16 i AND 0xFF), word_of_int (drop_bit 24 i AND 0xFF)]"

primrec Encoder_bitmap_loop :: "byte list \<Rightarrow> int \<Rightarrow> nat list \<Rightarrow> byte list" where
  "Encoder_bitmap_loop b bits [] = b"
| "Encoder_bitmap_loop b bits (i # is) =
     Encoder_bitmap_loop (b @ [word_of_int (drop_bit (i * 8) bits AND 0xFF)]) bits is"

definition Encoder_bitmap :: "byte list \<Rightarrow> int \<Rightarrow> int \<Rightarrow> byte list" where
  "Encoder_bitmap b bits nbits = Encoder_bitmap_loop b bits [0..<nat ((nbits + 7) div 8)]"

function uvarint_loop :: "byte list \<Rightarrow> int \<Rightarrow> error + byte list" where
  "uvarint_loop b v =
     (if v > 0x7f
      then bind_err (bytearray_append b ((v AND 0x7f) OR 0x80))
             (\<lambda>b'. uvarint_loop b' (drop_bit 7 v))
      else bytearray_append b v)"
  by pat_completeness auto
termination
proof (relation "measure (\<lambda>(b, v). nat v)")
  show "wf (measure (\<lambda>(b, v). nat v))" by simp
next
  fix b :: "byte list" and v :: int and b' :: "byte list"
  assume "127 < v"
  then have "v div 128 < v" by simp
  then show "((b', drop_bit 7 v), (b, v)) \<in> measure (\<lambda>(b, v). nat v)"
    using \<open>127 < v\<close> by (simp add: drop_bit_eq_div)
qed

declare uvarint_loop.simps [simp del]

definition Encoder_uvarint :: "byte list \<Rightarrow> int \<Rightarrow> error + byte list" where
  "Encoder_uvarint b v = (if v < 0 then Inl ValueError else uvarint_loop b v)"

definition Encoder_svarint :: "byte list \<Rightarrow> int \<Rightarrow> error + byte list" where
  "Encoder_svarint b v =
     (let ux = push_bit 1 v;
          ux = (if v < 0 then NOT ux else ux)
      in Encoder_uvarint b ux)"

section \<open>Byte codec: Decoder\<close>

text \<open>
  \<open>Decoder.int32\<close> reads \<open>b[0]\<close> to \<open>b[3]\<close>; an index beyond the buffer raises
  \<open>IndexError\<close>. The remaining buffer is \<open>b[4:]\<close>.
\<close>

definition Decoder_int32 :: "byte list \<Rightarrow> error + (int \<times> byte list)" where
  "Decoder_int32 b =
     (if length b < 4 then Inl IndexError
      else Inr (uint (b ! 0) + push_bit 8 (uint (b ! 1)) + push_bit 16 (uint (b ! 2))
                  + push_bit 24 (uint (b ! 3)),
                slice_from b 4))"

primrec Decoder_bitmap_loop :: "byte list \<Rightarrow> nat list \<Rightarrow> int \<Rightarrow> error + int" where
  "Decoder_bitmap_loop b [] bitmap = Inr bitmap"
| "Decoder_bitmap_loop b (i # is) bitmap =
     (if i < length b
      then Decoder_bitmap_loop b is (bitmap OR push_bit (i * 8) (uint (b ! i)))
      else Inl IndexError)"

definition Decoder_bitmap :: "byte list \<Rightarrow> int \<Rightarrow> error + (int \<times> byte list)" where
  "Decoder_bitmap b nbits =
     (let nbytes = (nbits + 7) div 8
      in bind_err (Decoder_bitmap_loop b [0..<nat nbytes] 0)
           (\<lambda>bitmap. Inr (bitmap, slice_from b nbytes)))"

section \<open>Bitmap table (class Stackmap)\<close>

text \<open>
  The attribute \<open>n\<close> is set to 0 by the empty constructor only and is never read or
  updated; the entry count of a table is the length of \<open>bitmaps\<close>.
\<close>

record Stackmap =
  nbit :: int
  bitmaps :: "int list"

definition Stackmap_empty :: Stackmap where
  "Stackmap_empty = \<lparr>nbit = 0, bitmaps = []\<rparr>"

text \<open>
  The bit-length loop of \<open>add\<close>: \<open>while b2 != 0: nbit += 1; b2 >>= 1\<close>. On a negative
  bitmap it never ends (\<open>-1 >> 1 = -1\<close>), so the loop is a partial function.
\<close>

partial_function (option) add_loop :: "int \<Rightarrow> int \<Rightarrow> int option" where
  "add_loop nb b2 = (if b2 \<noteq> 0 then add_loop (nb + 1) (drop_bit 1 b2) else Some nb)"

declare add_loop.simps [code]

fun add_scan :: "int \<Rightarrow> int list \<Rightarrow> nat \<Rightarrow> nat option" where
  "add_scan bitmap [] i = None"
| "add_scan bitmap (b2 # rest) i =
     (if bitmap = b2 then Some i else add_scan bitmap rest (Suc i))"

definition Stackmap_add :: "Stackmap \<Rightarrow> int \<Rightarrow> (int \<times> Stackmap) option" where
  "Stackmap_add self bitmap =
     (case add_loop 0 bitmap of
        None \<Rightarrow> None
      | Some nb \<Rightarrow>
          (let self1 = self\<lparr>nbit := max nb (nbit self)\<rparr>
           in case add_scan bitmap (bitmaps self1) 0 of
                Some i \<Rightarrow> Some (int i, self1)
              | None \<Rightarrow> Some (int (length (bitmaps self1)),
                              self1\<lparr>bitmaps := bitmaps self1 @ [bitmap]\<rparr>)))"

text \<open>A table built by repeated \<open>add\<close>, starting from the empty table.\<close>

fun add_all :: "Stackmap \<Rightarrow> int list \<Rightarrow> Stackmap option" where
  "add_all self [] = Some self"
| "add_all self (bitmap # rest) =
     (case Stackmap_add self bitmap of
        None \<Rightarrow> None
      | Some (i, self1) \<Rightarrow> add_all self1 rest)"

text \<open>
  The invariant of a table built by \<open>add\<close>: the width is non-negative and every bitmap is
  a non-negative integer of at most that many bits.
\<close>

definition table_ok :: "Stackmap \<Rightarrow> bool" where
  "table_ok T = (0 \<le> nbit T \<and> (\<forall>b\<in>set (bitmaps T). 0 \<le> b \<and> b < 2 ^ nat (nbit T)))"

text \<open>
  \<open>sort\<close>: the pairs \<open>(b, i)\<close> are sorted as Python tuples, that is lexicographically;
  the method returns the list of the second components and stores the first ones.
\<close>

definition Stackmap_sort :: "Stackmap \<Rightarrow> nat list \<times> Stackmap" where
  "Stackmap_sort self =
     (let s = sort (map (\<lambda>(i, b). (b, i)) (enumerate 0 (bitmaps self)))
      in (map snd s, self\<lparr>bitmaps := map fst s\<rparr>))"

text \<open>
  \<open>encode\<close>: in the compact layout \<open>enc.uint8(self.nbit)\<close> raises when the width is
  not a byte; past that check every shift count \<open>i * self.nbit\<close> is non-negative.
\<close>

definition Stackmap_encode :: "byte list \<Rightarrow> Stackmap \<Rightarrow> bool \<Rightarrow> error + byte list" where
  "Stackmap_encode enc self compact =
     (let enc1 = Encoder_int32 enc (int (length (bitmaps self)))
      in if compact
         then bind_err (Encoder_uint8 enc1 (nbit self))
                (\<lambda>enc2.
                   let combined = fold (\<lambda>(i, b) combined.
                                          combined OR push_bit (nat (int i * nbit self)) b)
                                    (enumerate 0 (bitmaps self)) 0
                   in Inr (Encoder_bitmap enc2 combined
                             (int (length (bitmaps self)) * nbit self)))
         else Inr (fold (\<lambda>b e. Encoder_bitmap e b (nbit self)) (bitmaps self)
                     (Encoder_int32 enc1 (nbit self))))"

text \<open>
  The constructor \<open>Stackmap(dec)\<close>, the only decoder of the source: a count, a width,
  both of four bytes, then \<open>count\<close> bitmaps.
\<close>

primrec read_bitmaps :: "byte list \<Rightarrow> int \<Rightarrow> nat \<Rightarrow> error + (int list \<times> byte list)" where
  "read_bitmaps b nb 0 = Inr ([], b)"
| "read_bitmaps b nb (Suc k) =
     bind_err (Decoder_bitmap b nb)
       (\<lambda>(x, b1). bind_err (read_bitmaps b1 nb k) (\<lambda>(xs, b2). Inr (x # xs, b2)))"

definition Stackmap_decode :: "byte list \<Rightarrow> error + Stackmap" where
  "Stackmap_decode b =
     bind_err (Decoder_int32 b)
       (\<lambda>(n, b1). bind_err (Decoder_int32 b1)
          (\<lambda>(nb, b2). bind_err (read_bitmaps b2 nb (nat n))
             (\<lambda>(bms, b3). Inr \<lparr>nbit = nb, bitmaps = bms\<rparr>)))"

section \<open>PC-indexed codec (class PCData)\<close>

fun PCData_encode_loop :: "byte list \<Rightarrow> int \<times> int \<Rightarrow> (int \<times> int) list \<Rightarrow> error + byte list" where
  "PCData_encode_loop enc last0 [] = Inr enc"
| "PCData_encode_loop enc last0 (e # es) =
     bind_err (Encoder_uvarint enc (fst e - fst last0))
       (\<lambda>enc1. bind_err (Encoder_svarint enc1 (snd e - snd last0))
          (\<lambda>enc2. PCData_encode_loop enc2 e es))"

definition PCData_encode :: "byte list \<Rightarrow> (int \<times> int) list \<Rightarrow> error + byte list" where
  "PCData_encode enc pcdata =
     bind_err (PCData_encode_loop enc (0, 0) pcdata) (\<lambda>enc1. Encoder_uint8 enc1 0)"

section \<open>Liveness stream filter\<close>

text \<open>
  \<open>filterLiveToDead\<close> on the \<open>regMaps\<close> of one function; a record without a bitmap
  carries \<open>None\<close>. The branch for such a record appends to \<open>newRegIdx\<close>, a name that is
  bound nowhere in the module, so reaching it raises \<open>NameError\<close>.
\<close>

fun filter_loop ::
  "(int \<times> int option) list \<Rightarrow> int \<Rightarrow> (int \<times> int option) list \<Rightarrow> error + (int \<times> int option) list" where
  "filter_loop newRegMaps prevBitmap [] = Inr newRegMaps"
| "filter_loop newRegMaps prevBitmap ((pc, None) # rest) = Inl NameError"
| "filter_loop newRegMaps prevBitmap ((pc, Some bitmap) # rest) =
     filter_loop
       (if bitmap AND NOT prevBitmap \<noteq> 0 then newRegMaps @ [(pc, Some bitmap)] else newRegMaps)
       bitmap rest"

definition filterLiveToDead :: "(int \<times> int option) list \<Rightarrow> error + (int \<times> int option) list" where
  "filterLiveToDead regMaps = filter_loop [] 0 regMaps"

text \<open>
  A stream in which every record carries a bitmap, and the test that record \<open>i\<close> of such a
  stream sets a bit that the record just before it (or 0, for the first record) does not.
\<close>

definition newly_live :: "(int \<times> int) list \<Rightarrow> nat \<Rightarrow> bool" where
  "newly_live rs i = (snd (rs ! i) AND NOT (if i = 0 then 0 else snd (rs ! (i - 1))) \<noteq> 0)"

definition with_bitmap :: "(int \<times> int) list \<Rightarrow> (int \<times> int option) list" where
  "with_bitmap rs = map (\<lambda>(pc, bitmap). (pc, Some bitmap)) rs"

section \<open>Base-128 byte sequences\<close>

text \<open>
  The byte sequence of the base-128 continuation encoding of a non-negative integer: seven
  value bits per byte, least significant group first, the high bit set on every byte but
  the last. It is used to state what the encoders append.
\<close>

function uvarint_bytes :: "int \<Rightarrow> byte list" where
  "uvarint_bytes v =
     (if v > 0x7f then word_of_int ((v AND 0x7f) OR 0x80) # uvarint_bytes (drop_bit 7 v)
      else [word_of_int v])"
  by pat_completeness auto
termination
proof (relation "measure nat")
  show "wf (measure nat)" by simp
next
  fix v :: int
  assume "127 < v"
  then have "v div 128 < v" by simp
  then show "(drop_bit 7 v, v) \<in> measure nat"
    using \<open>127 < v\<close> by (simp add: drop_bit_eq_div)
qed

declare uvarint_bytes.simps [simp del]

definition zigzag :: "int \<Rightarrow> int" where
  "zigzag v = (if 0 \<le> v then 2 * v else - 2 * v - 1)"

text \<open>
  The deltas of a stream of records, each against the record before it, the first against
  \<open>last0\<close>; and the bytes of one record: the varint of its pc delta, then the varint of the
  zigzag image of its index delta.
\<close>

fun deltas :: "int \<times> int \<Rightarrow> (int \<times> int) list \<Rightarrow> (int \<times> int) list" where
  "deltas last0 [] = []"
| "deltas last0 (e # es) = (fst e - fst last0, snd e - snd last0) # deltas e es"

definition record_bytes :: "int \<times> int \<Rightarrow> byte list" where
  "record_bytes d = uvarint_bytes (fst d) @ uvarint_bytes (zigzag (snd d))"

section \<open>Readers of the varint stream\<close>

text \<open>
  Modelled from the spec: \<open>readUvarint\<close>, which the source does not contain (it only
  writes varints). Following section 4.1 of the specification, a varint is read seven bits
  per byte, least significant group first, until a byte without the continuation bit;
  reading past the end of the buffer is an error.
\<close>

fun readUvarint :: "byte list \<Rightarrow> error + (int \<times> byte list)" where
  "readUvarint [] = Inl IndexError"
| "readUvarint (x # xs) =
     (if bit x 7
      then bind_err (readUvarint xs) (\<lambda>(v, rest). Inr ((uint x AND 0x7f) + 128 * v, rest))
      else Inr (uint x, xs))"

text \<open>
  Modelled from the spec: the inverse of the zigzag mapping of section 4.1, which the source
  does not contain.
\<close>

definition unzigzag :: "int \<Rightarrow> int" where
  "unzigzag u = (if even u then u div 2 else - ((u + 1) div 2))"

text \<open>
  Modelled from the spec: \<open>readSvarint\<close>, which the source does not contain; it reads an
  unsigned varint and inverts the zigzag mapping.
\<close>

definition readSvarint :: "byte list \<Rightarrow> error + (int \<times> byte list)" where
  "readSvarint b = bind_err (readUvarint b) (\<lambda>(u, rest). Inr (unzigzag u, rest))"

text \<open>
  Modelled from the spec: the decoder of the PC-indexed stream, which the source does not
  contain. Following section 4.4 of the specification it reverses the delta arithmetic,
  starting from \<open>(0, 0)\<close>, and stops at the terminator. The terminator is the zero byte
  that comes strictly after the last record (section 9), that is the byte that ends the
  buffer: a zero byte met earlier, where a record begins, is the pc delta 0 of a record,
  which section 3 allows and Scenario C of section 8 contains. Reading past the end of the
  buffer is an error. The fuel of the loop is the length of the buffer, which no run
  exhausts before the buffer itself, since every record takes at least two bytes.
\<close>

fun PCData_decode_loop :: "nat \<Rightarrow> int \<times> int \<Rightarrow> byte list \<Rightarrow> error + (int \<times> int) list" where
  "PCData_decode_loop 0 last0 b = Inl IndexError"
| "PCData_decode_loop (Suc k) last0 b =
     (case b of
        [] \<Rightarrow> Inl IndexError
      | x # xs \<Rightarrow>
          if x = 0 \<and> xs = [] then Inr []
          else bind_err (readUvarint b)
                 (\<lambda>(dpc, b1). bind_err (readSvarint b1)
                    (\<lambda>(didx, b2).
                       let e = (fst last0 + dpc, snd last0 + didx)
                       in bind_err (PCData_decode_loop k e b2) (\<lambda>es. Inr (e # es)))))"

text \<open>
  Modelled from the spec: the entry point of the decoder of the PC-indexed stream.
\<close>

definition PCData_decode :: "byte list \<Rightarrow> error + (int \<times> int) list" where
  "PCData_decode b = PCData_decode_loop (length b) (0, 0) b"

section \<open>Generalized Huffman builder\<close>

text \<open>
  The payload of a node of the working list is either a symbol or the list of the payloads
  of its children; \<open>mktree\<close> tells them apart with \<open>isinstance(node, list)\<close>. A frequency
  table is a dict, given here by its items in iteration order. \<open>streamAlign\<close> is a natural
  number (with a negative one \<open>2**streamAlign\<close> is not an integer), as is the bit count
  \<open>bits\<close>, which starts at 0 and grows by \<open>streamAlign\<close>.
\<close>

datatype 'a node = Leaf 'a | Internal "'a node list"

text \<open>
  One round of the loop of \<open>huffman\<close>: a stable sort by descending weight, then the last
  \<open>radix\<close> nodes, or all of them when there are fewer, become the children of a new node
  appended to the rest.
\<close>

definition huffman_step :: "nat \<Rightarrow> (int \<times> 'a node) list \<Rightarrow> (int \<times> 'a node) list" where
  "huffman_step radix code =
     (let code1 = sort_key (\<lambda>x. - fst x) code;
          children = (if length code1 < radix then code1
                      else drop (length code1 - radix) code1);
          code2 = (if length code1 < radix then []
                   else take (length code1 - radix) code1)
      in code2 @ [(sum_list (map fst children), Internal (map snd children))])"

text \<open>
  With \<open>streamAlign = 0\<close> the radix is 1 and a round replaces one node by one node: the
  loop does not end, so it is a partial function.
\<close>

partial_function (option) huffman_loop ::
  "nat \<Rightarrow> (int \<times> 'a node) list \<Rightarrow> (int \<times> 'a node) list option" where
  "huffman_loop radix code =
     (if length code > 1 then huffman_loop radix (huffman_step radix code) else Some code)"

declare huffman_loop.simps [code]

text \<open>
  \<open>mktree\<close> assigns \<open>tree[node] = (codeword, bits)\<close> at every leaf it visits. The function
  below returns these assignments in the order in which they are made; \<open>huffman\<close> applies
  them, in that order, to the empty dict.
\<close>

function mktree :: "nat \<Rightarrow> 'a node \<Rightarrow> int \<Rightarrow> nat \<Rightarrow> ('a \<times> (int \<times> nat)) list" where
  "mktree streamAlign (Leaf s) codeword bits = [(s, (codeword, bits))]"
| "mktree streamAlign (Internal ts) codeword bits =
     concat (map (\<lambda>(i, child).
                    mktree streamAlign child (push_bit streamAlign codeword + int i)
                      (bits + streamAlign))
               (enumerate 0 ts))"
  by pat_completeness auto
termination
proof (relation "measure (\<lambda>(streamAlign, node, codeword, bits). size node)")
  show "wf (measure (\<lambda>(streamAlign, node, codeword, bits). size node))" by simp
next
  fix streamAlign :: nat and ts :: "'a node list" and codeword :: int and bits :: nat
    and x :: "nat \<times> 'a node" and i :: nat and child :: "'a node"
  assume "x \<in> set (enumerate 0 ts)" and "(i, child) = x"
  then have "child \<in> set ts" by (auto simp: in_set_enumerate_eq)
  then have "size child < Suc (size_list size ts)"
    by (induction ts) auto
  then show "((streamAlign, child, push_bit streamAlign codeword + int i, bits + streamAlign),
        (streamAlign, Internal ts, codeword, bits))
      \<in> measure (\<lambda>(streamAlign, node, codeword, bits). size node)"
    by simp
qed

definition huffman ::
  "('a \<times> int) list \<Rightarrow> nat \<Rightarrow> (error + ('a \<rightharpoonup> int \<times> nat)) option" where
  "huffman counts streamAlign =
     (let code = map (\<lambda>(val, count). (count, Leaf val)) counts;
          radix = 2 ^ streamAlign
      in case huffman_loop radix code of
           None \<Rightarrow> None
         | Some [] \<Rightarrow> Some (Inl IndexError)
         | Some ((w, root) # rest) \<Rightarrow>
             Some (Inr (fold (\<lambda>(s, cb) tree. tree(s \<mapsto> cb))
                          (mktree streamAlign root 0 0) Map.empty)))"

text \<open>
  A codeword read at its bit length, most significant bit first, and the prefix relation
  between two codewords with their lengths.
\<close>

definition bits_of :: "int \<times> nat \<Rightarrow> bool list" where
  "bits_of cb = map (\<lambda>i. bit (fst cb) (snd cb - 1 - i)) [0..<snd cb]"

definition is_bit_prefix :: "int \<times> nat \<Rightarrow> int \<times> nat \<Rightarrow> bool" where
  "is_bit_prefix a b = (snd a \<le> snd b \<and> take (snd a) (bits_of b) = bits_of a)"

text \<open>The symbols at the leaves of a node, and the bound on the number of children.\<close>

fun leaves :: "'a node \<Rightarrow> 'a set" where
  "leaves (Leaf s) = {s}"
| "leaves (Internal ts) = (\<Union>t\<in>set ts. leaves t)"

fun arity_ok :: "nat \<Rightarrow> 'a node \<Rightarrow> bool" where
  "arity_ok r (Leaf s) = True"
| "arity_ok r (Internal ts) = (length ts \<le> r \<and> (\<forall>t\<in>set ts. arity_ok r t))"

section \<open>Properties of the byte codec\<close>

lemma uint_byte_mask: "uint (word_of_int (x AND 0xFF) :: byte) = take_bit 8 x"
  by (simp add: uint_word_of_int_eq take_bit_eq_mask mask_eq_exp_minus_1)

lemma Encoder_bitmap_loop_eq:
  "Encoder_bitmap_loop b bits is = b @ map (\<lambda>i. word_of_int (drop_bit (i * 8) bits AND 0xFF)) is"
  by (induction "is" arbitrary: b) auto

lemma Decoder_bitmap_loop_eq:
  "\<forall>i\<in>set is. i < length b \<Longrightarrow>
   Decoder_bitmap_loop b is acc = Inr (fold (\<lambda>i a. a OR push_bit (i * 8) (uint (b ! i))) is acc)"
  by (induction "is" arbitrary: acc) auto

lemma Decoder_bitmap_loop_err:
  "\<exists>i\<in>set is. \<not> i < length b \<Longrightarrow> Decoder_bitmap_loop b is acc = Inl IndexError"
  by (induction "is" arbitrary: acc) auto

lemma fold_le_bytes:
  "(\<forall>i<n. uint (b ! i) = take_bit 8 (drop_bit (i * 8) bits)) \<Longrightarrow>
   fold (\<lambda>i a. a OR push_bit (i * 8) (uint (b ! i))) [0..<n] 0 = take_bit (n * 8) bits"
proof (induction n)
  case 0
  then show ?case by simp
next
  case (Suc n)
  then have "fold (\<lambda>i a. a OR push_bit (i * 8) (uint (b ! i))) [0..<n] 0 = take_bit (n * 8) bits"
    by simp
  moreover have "take_bit (n * 8) bits OR push_bit (n * 8) (take_bit 8 (drop_bit (n * 8) bits))
     = take_bit (Suc n * 8) bits"
    by (rule bit_eqI) (auto simp: bit_simps)
  ultimately show ?case using Suc.prems by simp
qed

lemma fold_bytes_bound:
  "0 \<le> fold (\<lambda>i a. a OR push_bit (i * 8) (uint ((b :: byte list) ! i))) [0..<n] 0 \<and>
   fold (\<lambda>i a. a OR push_bit (i * 8) (uint (b ! i))) [0..<n] 0 < 2 ^ (n * 8)"
proof (induction n)
  case 0
  then show ?case by simp
next
  case (Suc n)
  let ?v = "fold (\<lambda>i a. a OR push_bit (i * 8) (uint (b ! i))) [0..<n] 0"
  let ?w = "push_bit (n * 8) (uint (b ! n))"
  have w0: "0 \<le> ?w" by simp
  have "uint (b ! n) < 2 ^ 8" using uint_bounded [of "b ! n"] by simp
  then have "uint (b ! n) * 2 ^ (n * 8) < 2 ^ 8 * 2 ^ (n * 8)"
    by (intro mult_strict_right_mono) auto
  then have w1: "?w < 2 ^ (Suc n * 8)" by (simp add: push_bit_eq_mult power_add mult.commute)
  have "?v < 2 ^ (n * 8)" using Suc by simp
  also have "\<dots> \<le> (2::int) ^ (Suc n * 8)" by (intro power_increasing) auto
  finally have v1: "?v < 2 ^ (Suc n * 8)" .
  have "?v OR ?w < 2 ^ (Suc n * 8)" using Suc w0 v1 w1 by (intro OR_upper) auto
  moreover have "0 \<le> ?v OR ?w" using Suc w0 by simp
  ultimately show ?case by simp
qed

lemma take_bit_split:
  "take_bit (m + n) (a::int) = take_bit m a + push_bit m (take_bit n (drop_bit m a))"
  by (simp add: take_bit_eq_mod drop_bit_eq_div push_bit_eq_mult power_add zmod_zmult2_eq)

lemma int_mod_eq_self_iff: "0 < n \<Longrightarrow> ((i::int) mod n = i) = (0 \<le> i \<and> i < n)"
proof
  assume "0 < n" "i mod n = i"
  then show "0 \<le> i \<and> i < n"
    using pos_mod_sign [of n i] pos_mod_bound [of n i] by simp
next
  assume "0 < n" "0 \<le> i \<and> i < n"
  then show "i mod n = i" by simp
qed

lemma int32_bytes_sum:
  "take_bit 8 i + push_bit 8 (take_bit 8 (drop_bit 8 i)) + push_bit 16 (take_bit 8 (drop_bit 16 i))
     + push_bit 24 (take_bit 8 (drop_bit 24 i)) = take_bit 32 (i::int)"
proof -
  have a: "take_bit 32 i = take_bit 24 i + push_bit 24 (take_bit 8 (drop_bit 24 i))"
    using take_bit_split [of 24 8 i] by simp
  have b: "take_bit 24 i = take_bit 16 i + push_bit 16 (take_bit 8 (drop_bit 16 i))"
    using take_bit_split [of 16 8 i] by simp
  have c: "take_bit 16 i = take_bit 8 i + push_bit 8 (take_bit 8 (drop_bit 8 i))"
    using take_bit_split [of 8 8 i] by simp
  show ?thesis
    unfolding a b c by simp
qed

lemma Decoder_int32_Encoder_int32:
  "Decoder_int32 (Encoder_int32 [] i @ rest) = Inr (i mod 2 ^ 32, rest)"
proof -
  let ?b = "Encoder_int32 [] i @ rest"
  have s: "slice_from ?b 4 = rest"
    by (simp add: slice_from_def Encoder_int32_def)
  have l: "\<not> length ?b < 4" by (simp add: Encoder_int32_def)
  have "uint (?b ! 0) = take_bit 8 i"
    and "uint (?b ! 1) = take_bit 8 (drop_bit 8 i)"
    and "uint (?b ! 2) = take_bit 8 (drop_bit 16 i)"
    and "uint (?b ! 3) = take_bit 8 (drop_bit 24 i)"
    by (simp_all add: Encoder_int32_def uint_byte_mask)
  then have "uint (?b ! 0) + push_bit 8 (uint (?b ! 1)) + push_bit 16 (uint (?b ! 2))
      + push_bit 24 (uint (?b ! 3)) = take_bit 32 i"
    by (simp only: int32_bytes_sum)
  then have v: "uint (?b ! 0) + push_bit 8 (uint (?b ! 1)) + push_bit 16 (uint (?b ! 2))
      + push_bit 24 (uint (?b ! 3)) = i mod 2 ^ 32"
    by (simp only: take_bit_eq_mod)
  show ?thesis
    unfolding Decoder_int32_def by (simp only: l if_False s v)
qed

text \<open>
  Claim C9. For every integer \<open>i\<close>, negative or at least \<open>2 ^ 32\<close> included,
  \<open>Encoder.int32\<close> appends exactly the four little-endian bytes of \<open>i mod 2 ^ 32\<close> and
  \<open>Decoder.int32\<close> reads \<open>i mod 2 ^ 32\<close> back from them; the value read is \<open>i\<close> itself
  exactly when \<open>0 \<le> i < 2 ^ 32\<close>.
\<close>

theorem uint32_roundtrip:
  "Encoder_int32 b i = b @ Encoder_int32 [] i \<and>
   map uint (Encoder_int32 [] i) =
     [i mod 2 ^ 32 mod 256, i mod 2 ^ 32 div 2 ^ 8 mod 256,
      i mod 2 ^ 32 div 2 ^ 16 mod 256, i mod 2 ^ 32 div 2 ^ 24 mod 256] \<and>
   Decoder_int32 (Encoder_int32 [] i @ rest) = Inr (i mod 2 ^ 32, rest) \<and>
   ((Decoder_int32 (Encoder_int32 [] i @ rest) = Inr (i, rest)) = (0 \<le> i \<and> i < 2 ^ 32))"
proof -
  have m: "take_bit 8 (drop_bit k (take_bit 32 i)) = take_bit 8 (drop_bit k i)" if "k + 8 \<le> 32" for k
    using that by (intro bit_eqI) (auto simp: bit_simps)
  have m': "i mod 2 ^ 32 div 2 ^ k mod 256 = take_bit 8 (drop_bit k i)" if "k + 8 \<le> 32" for k
    using m [OF that] by (simp add: take_bit_eq_mod drop_bit_eq_div)
  have m0: "i mod 2 ^ 32 mod 256 = take_bit 8 i"
    using m' [of 0] by simp
  have m8: "i mod 2 ^ 32 div 2 ^ 8 mod 256 = take_bit 8 (drop_bit 8 i)" by (rule m') simp
  have m16: "i mod 2 ^ 32 div 2 ^ 16 mod 256 = take_bit 8 (drop_bit 16 i)" by (rule m') simp
  have m24: "i mod 2 ^ 32 div 2 ^ 24 mod 256 = take_bit 8 (drop_bit 24 i)" by (rule m') simp
  have "map uint (Encoder_int32 [] i) =
     [take_bit 8 i, take_bit 8 (drop_bit 8 i), take_bit 8 (drop_bit 16 i),
      take_bit 8 (drop_bit 24 i)]"
    by (simp add: Encoder_int32_def uint_byte_mask)
  then have bytes: "map uint (Encoder_int32 [] i) =
     [i mod 2 ^ 32 mod 256, i mod 2 ^ 32 div 2 ^ 8 mod 256,
      i mod 2 ^ 32 div 2 ^ 16 mod 256, i mod 2 ^ 32 div 2 ^ 24 mod 256]"
    by (simp only: m0 m8 m16 m24)
  have "(i mod 2 ^ 32 = i) = (0 \<le> i \<and> i < 2 ^ 32)"
    by (rule int_mod_eq_self_iff) simp
  then have "(Decoder_int32 (Encoder_int32 [] i @ rest) = Inr (i, rest)) = (0 \<le> i \<and> i < 2 ^ 32)"
    by (simp only: Decoder_int32_Encoder_int32 sum.inject prod.inject simp_thms)
  moreover have "Encoder_int32 b i = b @ Encoder_int32 [] i" by (simp add: Encoder_int32_def)
  ultimately show ?thesis using bytes Decoder_int32_Encoder_int32 by blast
qed

theorem uint32_roundtrip_witness:
  "map uint (Encoder_int32 [] (- 1)) = [255, 255, 255, 255] \<and>
   Decoder_int32 (Encoder_int32 [] (- 1) @ [7]) = Inr (4294967295, [7])"
  using uint32_roundtrip [of "[]" "- 1" "[7]"] by simp

lemma Decoder_bitmap_ok:
  assumes "0 \<le> nbits" and "nat ((nbits + 7) div 8) \<le> length b"
  shows "Decoder_bitmap b nbits =
    Inr (fold (\<lambda>i a. a OR push_bit (i * 8) (uint (b ! i))) [0..<nat ((nbits + 7) div 8)] 0,
         drop (nat ((nbits + 7) div 8)) b)"
proof -
  have "\<forall>i\<in>set [0..<nat ((nbits + 7) div 8)]. i < length b" using assms by auto
  then have "Decoder_bitmap_loop b [0..<nat ((nbits + 7) div 8)] 0 =
    Inr (fold (\<lambda>i a. a OR push_bit (i * 8) (uint (b ! i))) [0..<nat ((nbits + 7) div 8)] 0)"
    by (rule Decoder_bitmap_loop_eq)
  moreover have "0 \<le> (nbits + 7) div 8" using assms(1) by (simp add: pos_imp_zdiv_nonneg_iff)
  then have "slice_from b ((nbits + 7) div 8) = drop (nat ((nbits + 7) div 8)) b"
    by (simp add: slice_from_def)
  ultimately show ?thesis by (simp add: Decoder_bitmap_def bind_err_def Let_def)
qed

lemma Encoder_bitmap_eq:
  "Encoder_bitmap b bits nbits =
     b @ map (\<lambda>i. word_of_int (drop_bit (i * 8) bits AND 0xFF)) [0..<nat ((nbits + 7) div 8)]"
  by (simp add: Encoder_bitmap_def Encoder_bitmap_loop_eq)

lemma Decoder_bitmap_Encoder_bitmap:
  assumes "0 \<le> nbits"
  shows "Decoder_bitmap (Encoder_bitmap [] v nbits @ rest) nbits =
     Inr (take_bit (nat ((nbits + 7) div 8) * 8) v, rest)"
proof -
  let ?n = "nat ((nbits + 7) div 8)"
  let ?b = "Encoder_bitmap [] v nbits @ rest"
  have len: "length (Encoder_bitmap [] v nbits) = ?n" by (simp add: Encoder_bitmap_eq)
  have "\<forall>i<?n. uint (?b ! i) = take_bit 8 (drop_bit (i * 8) v)"
    by (simp add: Encoder_bitmap_eq nth_append uint_byte_mask)
  then have "fold (\<lambda>i a. a OR push_bit (i * 8) (uint (?b ! i))) [0..<?n] 0 = take_bit (?n * 8) v"
    by (rule fold_le_bytes)
  moreover have "drop ?n ?b = rest" using len by simp
  moreover have "?n \<le> length ?b" using len by simp
  ultimately show ?thesis using Decoder_bitmap_ok [OF assms, of ?b] by simp
qed

text \<open>
  Claim C10. For every \<open>nbits \<ge> 0\<close> and every non-negative value, \<open>Encoder.bitmap\<close> appends
  exactly \<open>ceil(nbits/8)\<close> bytes, which hold the value modulo \<open>2 ^ (8 * ceil(nbits/8))\<close>: a
  wider value is truncated, not rejected, and \<open>Decoder.bitmap\<close> reads the value back if and
  only if it is below \<open>2 ^ (8 * ceil(nbits/8))\<close>.
\<close>

theorem writeBitmap_truncates:
  assumes "0 \<le> nbits" and "0 \<le> v"
  shows "length (Encoder_bitmap [] v nbits) = nat ((nbits + 7) div 8) \<and>
     Encoder_bitmap b v nbits = b @ Encoder_bitmap [] v nbits \<and>
     Decoder_bitmap (Encoder_bitmap [] v nbits @ rest) nbits =
       Inr (v mod 2 ^ (8 * nat ((nbits + 7) div 8)), rest) \<and>
     ((Decoder_bitmap (Encoder_bitmap [] v nbits @ rest) nbits = Inr (v, rest)) =
        (v < 2 ^ (8 * nat ((nbits + 7) div 8))))"
proof -
  let ?n = "nat ((nbits + 7) div 8)"
  have d: "Decoder_bitmap (Encoder_bitmap [] v nbits @ rest) nbits = Inr (v mod 2 ^ (8 * ?n), rest)"
    using Decoder_bitmap_Encoder_bitmap [OF assms(1), of v rest]
    by (simp add: take_bit_eq_mod mult.commute)
  have "(v mod 2 ^ (8 * ?n) = v) = (0 \<le> v \<and> v < 2 ^ (8 * ?n))"
    by (rule int_mod_eq_self_iff) simp
  then have "(Decoder_bitmap (Encoder_bitmap [] v nbits @ rest) nbits = Inr (v, rest)) =
        (v < 2 ^ (8 * ?n))"
    using assms(2) by (simp only: d sum.inject prod.inject simp_thms)
  then show ?thesis using d by (simp add: Encoder_bitmap_eq)
qed

theorem writeBitmap_truncates_witness:
  "length (Encoder_bitmap [] 0x1FF 1) = 1 \<and>
   Decoder_bitmap (Encoder_bitmap [] 0x1FF 1 @ [9]) 1 = Inr (255, [9]) \<and>
   Decoder_bitmap (Encoder_bitmap [] 0x1FF 1 @ [9]) 1 \<noteq> Inr (0x1FF, [9])"
  using writeBitmap_truncates [of 1 "0x1FF" "[]" "[9]"] by simp

lemma nbits_le_bytes: "0 \<le> nbits \<Longrightarrow> nat nbits \<le> 8 * nat ((nbits + 7) div 8)"
  by (simp add: nat_le_iff nat_mult_distrib pos_imp_zdiv_nonneg_iff)

lemma pow256: "(2::int) ^ (n * 8) = 256 ^ n"
proof -
  have "(2::int) ^ (8 * n) = (2 ^ 8) ^ n" by (rule power_mult)
  moreover have "n * 8 = 8 * n" by simp
  moreover have "(2::int) ^ 8 = 256" by simp
  ultimately show ?thesis by (simp only:)
qed

lemma or_push_bit_add:
  assumes "0 \<le> a" and "a < 2 ^ k"
  shows "a OR push_bit k x = a + push_bit k (x::int)"
proof -
  have t: "take_bit k a = a" using assms by (simp add: take_bit_int_eq_self)
  have "\<not> bit a n \<or> \<not> bit (push_bit k x) n" for n
  proof (cases "n < k")
    case True
    then show ?thesis by (simp add: bit_simps)
  next
    case False
    then have "\<not> bit (take_bit k a) n" by (simp add: bit_simps)
    then show ?thesis by (simp add: t)
  qed
  then show ?thesis by (rule disjunctive_add [symmetric])
qed

lemma fold_bytes_sum:
  "fold (\<lambda>i a. a OR push_bit (i * 8) (uint ((b :: byte list) ! i))) [0..<n] 0 =
     (\<Sum>i<n. uint (b ! i) * 256 ^ i)"
proof (induction n)
  case 0
  then show ?case by simp
next
  case (Suc n)
  let ?v = "fold (\<lambda>i a. a OR push_bit (i * 8) (uint (b ! i))) [0..<n] 0"
  have bnd: "0 \<le> ?v" "?v < 2 ^ (n * 8)" using fold_bytes_bound [of b n] by auto
  note p = pow256 [of n]
  have "?v OR push_bit (n * 8) (uint (b ! n)) = ?v + push_bit (n * 8) (uint (b ! n))"
    using bnd by (rule or_push_bit_add)
  also have "\<dots> = ?v + uint (b ! n) * 256 ^ n" by (simp only: push_bit_eq_mult p)
  finally show ?case using Suc by simp
qed

lemma Encoder_bitmap_bytes:
  "map uint (Encoder_bitmap [] v nbits) =
     map (\<lambda>i. v div 256 ^ i mod 256) [0..<nat ((nbits + 7) div 8)]"
proof -
  note p = pow256
  have "uint (word_of_int (drop_bit (i * 8) v AND 0xFF) :: byte) = v div 256 ^ i mod 256" for i
    unfolding uint_byte_mask by (simp only: take_bit_eq_mod drop_bit_eq_div p) simp
  then show ?thesis by (simp add: Encoder_bitmap_eq)
qed

lemma Decoder_bitmap_short:
  assumes "length b < nat ((nbits + 7) div 8)"
  shows "Decoder_bitmap b nbits = Inl IndexError"
proof -
  have "\<exists>i\<in>set [0..<nat ((nbits + 7) div 8)]. \<not> i < length b"
    using assms by (intro bexI [of _ "length b"]) auto
  then have "Decoder_bitmap_loop b [0..<nat ((nbits + 7) div 8)] 0 = Inl IndexError"
    by (rule Decoder_bitmap_loop_err)
  then show ?thesis by (simp add: Decoder_bitmap_def bind_err_def Let_def)
qed

text \<open>
  Claim C5, as stated, fails: \<open>Decoder.bitmap\<close> does not mask the last byte. Reading one bit
  from the byte \<open>0xFF\<close> returns 255, and writing the value \<open>0xFF\<close> at width 1 stores the byte
  \<open>0xFF\<close> unchanged.
\<close>

theorem readBitmap_high_bits_counterexample:
  "Decoder_bitmap [0xFF] 1 = Inr (255, []) \<and> \<not> (255::int) < 2 ^ 1 \<and>
   Encoder_bitmap [] 0xFF 1 = [0xFF]"
  by (simp add: Decoder_bitmap_def Encoder_bitmap_def bind_err_def slice_from_def)

text \<open>
  Claim C5, amended. For \<open>nbits \<ge> 0\<close>, \<open>Decoder.bitmap\<close> on a buffer of at least
  \<open>ceil(nbits/8)\<close> bytes returns the little-endian value of all the bytes it consumes, the
  high bits of the last one included, which is non-negative and below
  \<open>2 ^ (8 * ceil(nbits/8))\<close>, and leaves the rest of the buffer; on a shorter buffer it
  raises \<open>IndexError\<close>. \<open>Encoder.bitmap\<close> does not mask either: byte \<open>i\<close> of what it writes is
  \<open>(v >> 8i) & 0xFF\<close> whatever \<open>nbits\<close> is, so the unused high bits of the last byte
  are those of the value; for \<open>0 \<le> v < 2 ^ nbits\<close> they are zero and the bytes read back as
  \<open>v\<close>.
\<close>

theorem readBitmap_whole_bytes:
  assumes "0 \<le> nbits"
  shows "(nat ((nbits + 7) div 8) \<le> length b \<longrightarrow>
           Decoder_bitmap b nbits =
             Inr (\<Sum>i<nat ((nbits + 7) div 8). uint (b ! i) * 256 ^ i,
                  drop (nat ((nbits + 7) div 8)) b)) \<and>
         (length b < nat ((nbits + 7) div 8) \<longrightarrow> Decoder_bitmap b nbits = Inl IndexError) \<and>
         0 \<le> (\<Sum>i<nat ((nbits + 7) div 8). uint (b ! i) * 256 ^ i) \<and>
         (\<Sum>i<nat ((nbits + 7) div 8). uint (b ! i) * 256 ^ i) < 2 ^ (8 * nat ((nbits + 7) div 8)) \<and>
         map uint (Encoder_bitmap [] v nbits) =
           map (\<lambda>i. v div 256 ^ i mod 256) [0..<nat ((nbits + 7) div 8)] \<and>
         (0 \<le> v \<and> v < 2 ^ nat nbits \<longrightarrow>
           Decoder_bitmap (Encoder_bitmap [] v nbits @ rest) nbits = Inr (v, rest))"
proof -
  let ?n = "nat ((nbits + 7) div 8)"
  let ?s = "\<Sum>i<?n. uint (b ! i) * 256 ^ i"
  have s: "fold (\<lambda>i a. a OR push_bit (i * 8) (uint (b ! i))) [0..<?n] 0 = ?s"
    by (rule fold_bytes_sum)
  have a: "?n \<le> length b \<longrightarrow> Decoder_bitmap b nbits = Inr (?s, drop ?n b)"
    using Decoder_bitmap_ok [OF assms, of b] s by simp
  have b: "length b < ?n \<longrightarrow> Decoder_bitmap b nbits = Inl IndexError"
    using Decoder_bitmap_short by blast
  have c: "0 \<le> ?s \<and> ?s < 2 ^ (8 * ?n)"
    using fold_bytes_bound [of b ?n] unfolding s by (simp add: mult.commute)
  have d: "0 \<le> v \<and> v < 2 ^ nat nbits \<longrightarrow>
      Decoder_bitmap (Encoder_bitmap [] v nbits @ rest) nbits = Inr (v, rest)"
  proof
    assume v: "0 \<le> v \<and> v < 2 ^ nat nbits"
    have "v < 2 ^ nat nbits" using v by simp
    also have "(2::int) ^ nat nbits \<le> 2 ^ (?n * 8)"
      using nbits_le_bytes [OF assms] by (intro power_increasing) (auto simp: mult.commute)
    finally have "v < 2 ^ (?n * 8)" .
    then have "take_bit (?n * 8) v = v" using v by (simp add: take_bit_int_eq_self)
    then show "Decoder_bitmap (Encoder_bitmap [] v nbits @ rest) nbits = Inr (v, rest)"
      using Decoder_bitmap_Encoder_bitmap [OF assms, of v rest] by simp
  qed
  show ?thesis using a b c d Encoder_bitmap_bytes [of v nbits] by blast
qed

theorem readBitmap_whole_bytes_witness:
  "Decoder_bitmap [0xFF, 5] 1 = Inr (255, [5]) \<and>
   map uint (Encoder_bitmap [] 0x1FF 1) = [255] \<and>
   Decoder_bitmap (Encoder_bitmap [] 1 1 @ [5]) 1 = Inr (1, [5])"
proof -
  have n: "nat (((1::int) + 7) div 8) = 1" by simp
  have h: "(0::int) \<le> 1" by simp
  have "Decoder_bitmap [0xFF, 5] 1 = Inr (\<Sum>i<nat (((1::int) + 7) div 8). uint ([0xFF, 5 :: byte] ! i) * 256 ^ i,
      drop (nat (((1::int) + 7) div 8)) [0xFF, 5])"
    and "map uint (Encoder_bitmap [] 0x1FF 1) =
      map (\<lambda>i. 0x1FF div 256 ^ i mod 256) [0..<nat (((1::int) + 7) div 8)]"
    using readBitmap_whole_bytes [OF h, of "[0xFF, 5]" "0x1FF"] by simp_all
  moreover have "Decoder_bitmap (Encoder_bitmap [] 1 1 @ [5]) 1 = Inr (1, [5])"
    using readBitmap_whole_bytes [OF h, of "[]" 1 "[5]"] by simp
  ultimately show ?thesis unfolding n by simp
qed

section \<open>Properties of the varint encoders\<close>

lemma cont_byte_range: "0 \<le> (v AND 0x7f) OR 0x80 \<and> (v AND 0x7f) OR 0x80 < (256::int)"
proof -
  have a: "0 \<le> v AND 0x7f" by simp
  have "v AND 0x7f \<le> 0x7f" by (rule AND_upper2) simp
  then have b: "v AND 0x7f < 2 ^ 8" by simp
  have "(v AND 0x7f) OR 0x80 < 2 ^ 8" using a b by (intro OR_upper) auto
  then show ?thesis using a by simp
qed

lemma uvarint_loop_bytes: "0 \<le> v \<Longrightarrow> uvarint_loop b v = Inr (b @ uvarint_bytes v)"
proof (induction b v rule: uvarint_loop.induct)
  case (1 b v)
  show ?case
  proof (cases "v > 0x7f")
    case True
    have app: "bytearray_append b ((v AND 0x7f) OR 0x80) = Inr (b @ [word_of_int ((v AND 0x7f) OR 0x80)])"
      using cont_byte_range [of v] by (simp add: bytearray_append_def)
    have "0 \<le> drop_bit 7 v" using "1.prems" by simp
    then have "uvarint_loop (b @ [word_of_int ((v AND 0x7f) OR 0x80)]) (drop_bit 7 v) =
       Inr ((b @ [word_of_int ((v AND 0x7f) OR 0x80)]) @ uvarint_bytes (drop_bit 7 v))"
      using "1.IH" [OF True] by simp
    then show ?thesis
      using True app
      by (subst uvarint_loop.simps, subst uvarint_bytes.simps) (simp add: bind_err_def)
  next
    case False
    then show ?thesis
      using "1.prems"
      by (subst uvarint_loop.simps, subst uvarint_bytes.simps) (simp add: bytearray_append_def)
  qed
qed

lemma len8: "LENGTH(8) = 8"
  by simp

lemma cont_byte_bit7: "bit (word_of_int ((v AND 0x7f) OR 0x80) :: byte) 7"
  by (simp add: bit_simps)

lemma cont_byte_low: "uint (word_of_int ((v AND 0x7f) OR 0x80) :: byte) AND 0x7f = take_bit 7 v"
proof -
  have m: "(0x7f::int) = mask 7" by (simp add: mask_eq_exp_minus_1)
  have p: "(0x80::int) = push_bit 7 1" by simp
  have "take_bit 8 ((v AND mask 7) OR push_bit 7 k) AND mask 7 = take_bit 7 v" for k :: int
    by (rule bit_eqI) (auto simp: bit_simps)
  from this [of 1] show ?thesis
    unfolding m p by (simp only: uint_word_of_int_eq len8) 
qed

lemma final_byte:
  assumes "0 \<le> v" and "\<not> v > 0x7f"
  shows "\<not> bit (word_of_int v :: byte) 7" and "uint (word_of_int v :: byte) AND 0x7f = v"
proof -
  have "v < 2 ^ 7" using assms by simp
  then have t: "take_bit 7 v = v" using assms by (simp add: take_bit_int_eq_self)
  have "\<not> bit (take_bit 7 v) 7" by (simp add: bit_simps)
  then show "\<not> bit (word_of_int v :: byte) 7" by (simp add: t bit_simps)
  have "v < 2 ^ 8" using assms by simp
  then have "uint (word_of_int v :: byte) = v" using assms by (simp add: uint_word_of_int_eq take_bit_int_eq_self)
  moreover have "v AND 0x7f = take_bit 7 v" by (simp add: take_bit_eq_mask mask_eq_exp_minus_1)
  ultimately show "uint (word_of_int v :: byte) AND 0x7f = v" using t by simp
qed

lemma uvarint_bytes_nonempty: "uvarint_bytes v \<noteq> []"
  by (subst uvarint_bytes.simps) simp

lemma uvarint_bytes_cont:
  "0 \<le> v \<Longrightarrow> list_all (\<lambda>x. bit x 7) (butlast (uvarint_bytes v)) \<and> \<not> bit (last (uvarint_bytes v)) 7"
proof (induction v rule: uvarint_bytes.induct)
  case (1 v)
  show ?case
  proof (cases "v > 0x7f")
    case True
    have "0 \<le> drop_bit 7 v" using "1.prems" by simp
    then have ih: "list_all (\<lambda>x. bit x 7) (butlast (uvarint_bytes (drop_bit 7 v))) \<and>
        \<not> bit (last (uvarint_bytes (drop_bit 7 v))) 7"
      using "1.IH" [OF True] by simp
    have e: "uvarint_bytes v = word_of_int ((v AND 0x7f) OR 0x80) # uvarint_bytes (drop_bit 7 v)"
      using True by (subst uvarint_bytes.simps) simp
    show ?thesis
      unfolding e using ih uvarint_bytes_nonempty [of "drop_bit 7 v"] cont_byte_bit7 [of v]
      by simp
  next
    case False
    have e: "uvarint_bytes v = [word_of_int v]"
      using False by (subst uvarint_bytes.simps) simp
    show ?thesis unfolding e using final_byte(1) [OF "1.prems" False] by simp
  qed
qed

lemma base128_sum_Cons:
  "(\<Sum>i<length (x # xs). (uint ((x # xs) ! i) AND 0x7f) * 128 ^ i) =
     (uint x AND 0x7f) + 128 * (\<Sum>i<length xs. (uint (xs ! i) AND 0x7f) * (128::int) ^ i)"
  unfolding length_Cons sum.lessThan_Suc_shift by (simp add: sum_distrib_left mult_ac)

lemma uvarint_bytes_value:
  "0 \<le> v \<Longrightarrow> (\<Sum>i<length (uvarint_bytes v). (uint (uvarint_bytes v ! i) AND 0x7f) * 128 ^ i) = v"
proof (induction v rule: uvarint_bytes.induct)
  case (1 v)
  show ?case
  proof (cases "v > 0x7f")
    case True
    have "0 \<le> drop_bit 7 v" using "1.prems" by simp
    then have ih: "(\<Sum>i<length (uvarint_bytes (drop_bit 7 v)).
        (uint (uvarint_bytes (drop_bit 7 v) ! i) AND 0x7f) * 128 ^ i) = drop_bit 7 v"
      using "1.IH" [OF True] by simp
    have e: "uvarint_bytes v = word_of_int ((v AND 0x7f) OR 0x80) # uvarint_bytes (drop_bit 7 v)"
      using True by (subst uvarint_bytes.simps) simp
    have "take_bit 7 v + 128 * drop_bit 7 v = v"
      by (simp add: take_bit_eq_mod drop_bit_eq_div)
    then show ?thesis
      unfolding e base128_sum_Cons ih cont_byte_low by simp
  next
    case False
    have e: "uvarint_bytes v = [word_of_int v]"
      using False by (subst uvarint_bytes.simps) simp
    show ?thesis unfolding e using final_byte(2) [OF "1.prems" False] by simp
  qed
qed

text \<open>
  Claim C8. \<open>Encoder.uvarint\<close> fails, with \<open>ValueError\<close>, when and only when its input is
  negative. For every non-negative input it succeeds and appends a non-empty byte sequence
  in which every byte but the last has the high bit set, the last has it clear, and the low
  seven bits of the bytes are the base-128 digits of the input, least significant first.
\<close>

theorem writeUvarint_fails_iff_negative:
  "((Encoder_uvarint b v = Inl ValueError) = (v < 0)) \<and>
   ((\<exists>e. Encoder_uvarint b v = Inl e) = (v < 0)) \<and>
   (0 \<le> v \<longrightarrow>
      (\<exists>bs. Encoder_uvarint b v = Inr (b @ bs) \<and> bs \<noteq> [] \<and>
            list_all (\<lambda>x. bit x 7) (butlast bs) \<and> \<not> bit (last bs) 7 \<and>
            (\<Sum>i<length bs. (uint (bs ! i) AND 0x7f) * 128 ^ i) = v))"
proof -
  have neg: "v < 0 \<Longrightarrow> Encoder_uvarint b v = Inl ValueError"
    by (simp add: Encoder_uvarint_def)
  have pos: "0 \<le> v \<Longrightarrow> Encoder_uvarint b v = Inr (b @ uvarint_bytes v)"
    by (simp add: Encoder_uvarint_def uvarint_loop_bytes)
  have a: "(Encoder_uvarint b v = Inl ValueError) = (v < 0)"
    using neg pos by (cases "v < 0") auto
  have b: "(\<exists>e. Encoder_uvarint b v = Inl e) = (v < 0)"
    using neg pos by (cases "v < 0") auto
  have c: "0 \<le> v \<longrightarrow>
      (\<exists>bs. Encoder_uvarint b v = Inr (b @ bs) \<and> bs \<noteq> [] \<and>
            list_all (\<lambda>x. bit x 7) (butlast bs) \<and> \<not> bit (last bs) 7 \<and>
            (\<Sum>i<length bs. (uint (bs ! i) AND 0x7f) * 128 ^ i) = v)"
    using pos uvarint_bytes_nonempty [of v] uvarint_bytes_cont [of v] uvarint_bytes_value [of v]
    by blast
  show ?thesis using a b c by blast
qed

lemma uvarint_bytes_300: "uvarint_bytes 300 = [0xAC, 0x02]"
  by (simp add: uvarint_bytes.simps)

theorem writeUvarint_fails_iff_negative_witness:
  "(0::int) \<le> 300 \<and> Encoder_uvarint [] 300 = Inr [0xAC, 0x02] \<and>
   \<not> bit (0x02 :: byte) 7 \<and> Encoder_uvarint [] (- 1) = Inl ValueError"
proof -
  have "Encoder_uvarint [] 300 = Inr [0xAC, 0x02]"
    by (simp add: Encoder_uvarint_def uvarint_loop_bytes uvarint_bytes_300)
  then show ?thesis
    using writeUvarint_fails_iff_negative [of "[]" 300]
      writeUvarint_fails_iff_negative [of "[]" "- 1"]
    by auto
qed

section \<open>Properties of the PC-indexed codec\<close>

lemma zigzag_nonneg: "0 \<le> zigzag v"
  by (simp add: zigzag_def)

lemma Encoder_svarint_zigzag: "Encoder_svarint b v = Encoder_uvarint b (zigzag v)"
  by (simp add: Encoder_svarint_def zigzag_def Let_def push_bit_eq_mult not_int_def mult.commute)

lemma Encoder_svarint_bytes: "Encoder_svarint b v = Inr (b @ uvarint_bytes (zigzag v))"
  using zigzag_nonneg [of v]
  by (simp add: Encoder_svarint_zigzag Encoder_uvarint_def uvarint_loop_bytes)

lemma Encoder_uvarint_bytes: "0 \<le> v \<Longrightarrow> Encoder_uvarint b v = Inr (b @ uvarint_bytes v)"
  by (simp add: Encoder_uvarint_def uvarint_loop_bytes)

lemma PCData_encode_loop_bytes:
  "sorted (fst last0 # map fst pcdata) \<Longrightarrow>
   PCData_encode_loop enc last0 pcdata = Inr (enc @ concat (map record_bytes (deltas last0 pcdata)))"
proof (induction pcdata arbitrary: enc last0)
  case Nil
  then show ?case by simp
next
  case (Cons e es)
  have d: "0 \<le> fst e - fst last0" using Cons.prems by simp
  have s: "sorted (fst e # map fst es)" using Cons.prems by simp
  show ?case
    using Cons.IH [OF s]
    by (simp add: Encoder_uvarint_bytes [OF d] Encoder_svarint_bytes bind_err_def record_bytes_def)
qed

lemma uvarint_bytes_hd: "0 \<le> v \<Longrightarrow> (hd (uvarint_bytes v) = 0) = (v = 0)"
proof -
  assume v: "0 \<le> v"
  show ?thesis
  proof (cases "v > 0x7f")
    case True
    have e: "uvarint_bytes v = word_of_int ((v AND 0x7f) OR 0x80) # uvarint_bytes (drop_bit 7 v)"
      using True by (subst uvarint_bytes.simps) simp
    have "bit (word_of_int ((v AND 0x7f) OR 0x80) :: byte) 7" by (rule cont_byte_bit7)
    then have "(word_of_int ((v AND 0x7f) OR 0x80) :: byte) \<noteq> 0" by auto
    then show ?thesis using True unfolding e by simp
  next
    case False
    have e: "uvarint_bytes v = [word_of_int v]"
      using False by (subst uvarint_bytes.simps) simp
    have "v < 2 ^ 8" using False by simp
    then have "uint (word_of_int v :: byte) = v"
      using v by (simp add: uint_word_of_int_eq take_bit_int_eq_self)
    then have "((word_of_int v :: byte) = 0) = (v = 0)"
      by (metis uint_0_eq word_of_int_0)
    then show ?thesis unfolding e by simp
  qed
qed

lemma uvarint_bytes_small: "0 \<le> v \<Longrightarrow> v \<le> 0x7f \<Longrightarrow> uvarint_bytes v = [word_of_int v]"
  by (subst uvarint_bytes.simps) simp

lemma scenario_C_bytes:
  "PCData_encode [] [(0, 0), (5, 1), (5, 1), (12, 0)] = Inr [0, 0, 5, 2, 0, 0, 7, 1, 0]"
  by (simp add: PCData_encode_def Encoder_uvarint_bytes Encoder_svarint_bytes bind_err_def
      zigzag_def uvarint_bytes_small Encoder_uint8_def bytearray_append_def)

text \<open>
  Claim C4, as stated, fails: a record whose pc equals the pc of the record before it is
  encoded from a zero byte on. In the stream of the records \<open>(5, 1), (5, 1)\<close> the second
  record begins, at the third byte, with the byte \<open>0\<close>, and the bytes up to there are the
  whole encoding of the stream \<open>(5, 1)\<close>, terminator included.
\<close>

theorem terminator_ambiguous_counterexample:
  "PCData_encode [] [(5, 1), (5, 1)] = Inr [5, 2, 0, 0, 0] \<and>
   PCData_encode [] [(5, 1)] = Inr [5, 2, 0]"
  by (simp add: PCData_encode_def Encoder_uvarint_bytes Encoder_svarint_bytes bind_err_def
      zigzag_def uvarint_bytes_small Encoder_uint8_def bytearray_append_def)

text \<open>
  Claim C4, amended. In the byte stream of the PC-indexed codec the encoding of a record,
  which starts where the encoding of the record before it ends, begins with a zero byte
  exactly when the pc delta of the record is zero; a record whose pc is greater than the
  previous pc begins with a non-zero byte and cannot be taken for the terminator.
\<close>

theorem record_begins_with_zero_iff:
  assumes "fst last0 \<le> fst e"
  shows "\<exists>bs. PCData_encode_loop enc last0 [e] = Inr (enc @ bs) \<and> bs \<noteq> [] \<and>
              ((hd bs = 0) = (fst e = fst last0)) \<and>
              PCData_encode_loop enc last0 (e # es) = PCData_encode_loop (enc @ bs) e es"
proof -
  let ?u = "uvarint_bytes (fst e - fst last0)"
  let ?s = "uvarint_bytes (zigzag (snd e - snd last0))"
  have d: "0 \<le> fst e - fst last0" using assms by simp
  have u: "Encoder_uvarint enc (fst e - fst last0) = Inr (enc @ ?u)"
    using d by (rule Encoder_uvarint_bytes)
  have s: "Encoder_svarint (enc @ ?u) (snd e - snd last0) = Inr ((enc @ ?u) @ ?s)"
    by (rule Encoder_svarint_bytes)
  have one: "PCData_encode_loop enc last0 [e] = Inr (enc @ ?u @ ?s)"
    using u s by (simp add: bind_err_def)
  have more: "PCData_encode_loop enc last0 (e # es) = PCData_encode_loop (enc @ ?u @ ?s) e es"
    using u s by (simp add: bind_err_def)
  have ne: "?u \<noteq> []" by (rule uvarint_bytes_nonempty)
  then have "hd (?u @ ?s) = hd ?u" by simp
  then have "(hd (?u @ ?s) = 0) = (fst e = fst last0)"
    using uvarint_bytes_hd [OF d] by simp
  then show ?thesis using one more ne by (intro exI [of _ "?u @ ?s"]) simp
qed

theorem record_begins_with_zero_iff_witness:
  "fst (5 :: int, 1 :: int) \<le> fst (5 :: int, 1 :: int) \<and>
   PCData_encode_loop [5, 2] (5, 1) [(5, 1)] = Inr ([5, 2] @ [0, 0]) \<and>
   PCData_encode_loop [5, 2] (5, 1) [(12, 0)] = Inr ([5, 2] @ [7, 1])"
proof -
  have "PCData_encode_loop [5, 2] (5, 1) [(5, 1)] = Inr ([5, 2] @ [0, 0]) \<and>
   PCData_encode_loop [5, 2] (5, 1) [(12, 0)] = Inr ([5, 2] @ [7, 1])"
    by (simp add: Encoder_uvarint_bytes Encoder_svarint_bytes bind_err_def
        zigzag_def uvarint_bytes_small)
  then show ?thesis
    using record_begins_with_zero_iff [of "(5, 1)" "(5, 1)" "[5, 2]" "[]"] by simp
qed

lemma readUvarint_uvarint_bytes:
  "0 \<le> v \<Longrightarrow> readUvarint (uvarint_bytes v @ rest) = Inr (v, rest)"
proof (induction v rule: uvarint_bytes.induct)
  case (1 v)
  show ?case
  proof (cases "v > 0x7f")
    case True
    have "0 \<le> drop_bit 7 v" using "1.prems" by simp
    then have ih: "readUvarint (uvarint_bytes (drop_bit 7 v) @ rest) = Inr (drop_bit 7 v, rest)"
      using "1.IH" [OF True] by simp
    have e: "uvarint_bytes v = word_of_int ((v AND 0x7f) OR 0x80) # uvarint_bytes (drop_bit 7 v)"
      using True by (subst uvarint_bytes.simps) simp
    have "take_bit 7 v + 128 * drop_bit 7 v = v"
      by (simp add: take_bit_eq_mod drop_bit_eq_div)
    then show ?thesis
      unfolding e using ih cont_byte_bit7 [of v] cont_byte_low [of v]
      by (simp add: bind_err_def)
  next
    case False
    have e: "uvarint_bytes v = [word_of_int v]"
      using False by (subst uvarint_bytes.simps) simp
    have "v < 2 ^ 8" using False by simp
    then have "uint (word_of_int v :: byte) = v"
      using "1.prems" by (simp add: uint_word_of_int_eq take_bit_int_eq_self)
    then show ?thesis
      unfolding e using final_byte(1) [OF "1.prems" False] by simp
  qed
qed

lemma unzigzag_zigzag: "unzigzag (zigzag v) = v"
proof (cases "0 \<le> v")
  case True
  then show ?thesis by (simp add: unzigzag_def zigzag_def)
next
  case False
  have o: "odd (- 2 * v - 1)" by simp
  have "(- 2 * v - 1 + 1) div 2 = - v" by simp
  then have "unzigzag (- 2 * v - 1) = v"
    unfolding unzigzag_def using o by (simp only: if_False minus_minus)
  then show ?thesis using False by (simp add: zigzag_def)
qed

lemma readSvarint_zigzag: "readSvarint (uvarint_bytes (zigzag v) @ rest) = Inr (v, rest)"
  by (simp add: readSvarint_def readUvarint_uvarint_bytes zigzag_nonneg bind_err_def unzigzag_zigzag)

lemma PCData_decode_loop_bytes:
  "sorted (fst last0 # map fst pcdata) \<Longrightarrow>
   length (concat (map record_bytes (deltas last0 pcdata)) @ [0 :: byte]) \<le> k \<Longrightarrow>
   PCData_decode_loop k last0 (concat (map record_bytes (deltas last0 pcdata)) @ [0]) = Inr pcdata"
proof (induction pcdata arbitrary: k last0)
  case Nil
  then obtain k' where "k = Suc k'" by (cases k) auto
  then show ?case by simp
next
  case (Cons e es)
  let ?dpc = "fst e - fst last0"
  let ?didx = "snd e - snd last0"
  let ?u = "uvarint_bytes ?dpc"
  let ?s = "uvarint_bytes (zigzag ?didx)"
  let ?rest = "concat (map record_bytes (deltas e es)) @ [0 :: byte]"
  have b: "concat (map record_bytes (deltas last0 (e # es))) @ [0] = ?u @ ?s @ ?rest"
    by (simp add: record_bytes_def)
  have d: "0 \<le> ?dpc" using Cons.prems(1) by simp
  obtain x u' where u: "?u = x # u'"
    using uvarint_bytes_nonempty [of ?dpc] by (cases ?u) auto
  have more: "u' @ ?s @ ?rest \<noteq> []" by simp
  have "length ?rest < length (?u @ ?s @ ?rest)" using u by simp
  moreover have "length (?u @ ?s @ ?rest) \<le> k" using Cons.prems(2) unfolding b .
  ultimately have "length ?rest < k" by linarith
  then obtain k' where k: "k = Suc k'" and k': "length ?rest \<le> k'"
    by (cases k) auto
  have s: "sorted (fst e # map fst es)" using Cons.prems(1) by simp
  have ih: "PCData_decode_loop k' e ?rest = Inr es"
    using Cons.IH [OF s k'] .
  have ru: "readUvarint (?u @ ?s @ ?rest) = Inr (?dpc, ?s @ ?rest)"
    using d by (rule readUvarint_uvarint_bytes)
  have rs: "readSvarint (?s @ ?rest) = Inr (?didx, ?rest)"
    by (rule readSvarint_zigzag)
  have "PCData_decode_loop (Suc k') last0 (x # u' @ ?s @ ?rest) = Inr (e # es)"
    using more ru rs ih unfolding u by (simp add: bind_err_def)
  then show ?case unfolding b k u by simp
qed

text \<open>
  Claim C6. For a stream of records whose pcs are non-negative and non-decreasing,
  \<open>PCData.encode\<close> appends, for each record in order, the unsigned varint of the pc minus
  the previous pc and then the zigzag varint of the index minus the previous index,
  starting from \<open>(0, 0)\<close>, and then one zero terminator byte. The deltas of the records
  \<open>(0, 0), (5, 1), (5, 1), (12, 0)\<close> are \<open>(0, 0), (5, 1), (0, 0), (7, -1)\<close>, their bytes are
  \<open>00 00 05 02 00 00 07 01 00\<close>, and decoding the bytes gives the four records back, as
  decoding the bytes of any such stream gives its records back.
\<close>

theorem PCData_encode_layout:
  assumes "sorted (0 # map fst pcdata)"
  shows "PCData_encode enc pcdata =
           Inr (enc @ concat (map record_bytes (deltas (0, 0) pcdata)) @ [0]) \<and>
         (0 \<le> dpc \<longrightarrow>
            bind_err (Encoder_uvarint enc dpc) (\<lambda>enc1. Encoder_svarint enc1 didx) =
              Inr (enc @ record_bytes (dpc, didx))) \<and>
         Encoder_svarint enc didx = Encoder_uvarint enc (zigzag didx) \<and>
         deltas (0, 0) [(0, 0), (5, 1), (5, 1), (12, 0)] = [(0, 0), (5, 1), (0, 0), (7, - 1)] \<and>
         PCData_encode [] [(0, 0), (5, 1), (5, 1), (12, 0)] = Inr [0, 0, 5, 2, 0, 0, 7, 1, 0] \<and>
         PCData_decode [0, 0, 5, 2, 0, 0, 7, 1, 0] = Inr [(0, 0), (5, 1), (5, 1), (12, 0)] \<and>
         PCData_decode (concat (map record_bytes (deltas (0, 0) pcdata)) @ [0]) = Inr pcdata"
proof -
  have enc_eq: "PCData_encode e0 rs = Inr (e0 @ concat (map record_bytes (deltas (0, 0) rs)) @ [0])"
    if "sorted (0 # map fst rs)" for e0 and rs :: "(int \<times> int) list"
  proof -
    have "sorted (fst (0 :: int, 0 :: int) # map fst rs)" using that by simp
    then have "PCData_encode_loop e0 (0, 0) rs =
        Inr (e0 @ concat (map record_bytes (deltas (0, 0) rs)))"
      by (rule PCData_encode_loop_bytes)
    then show ?thesis
      by (simp add: PCData_encode_def bind_err_def Encoder_uint8_def bytearray_append_def)
  qed
  have dec_eq: "PCData_decode (concat (map record_bytes (deltas (0, 0) rs)) @ [0]) = Inr rs"
    if "sorted (0 # map fst rs)" for rs :: "(int \<times> int) list"
  proof -
    have "sorted (fst (0 :: int, 0 :: int) # map fst rs)" using that by simp
    then show ?thesis
      unfolding PCData_decode_def by (rule PCData_decode_loop_bytes) simp
  qed
  have sc: "sorted (0 # map fst [(0 :: int, 0 :: int), (5, 1), (5, 1), (12, 0)])" by simp
  have "Inr ([] @ concat (map record_bytes (deltas (0, 0) [(0, 0), (5, 1), (5, 1), (12, 0)])) @ [0])
      = (Inr [0, 0, 5, 2, 0, 0, 7, 1, 0] :: error + byte list)"
    using enc_eq [OF sc, of "[]"] scenario_C_bytes by simp
  then have "concat (map record_bytes (deltas (0, 0) [(0, 0), (5, 1), (5, 1), (12, 0)])) @ [0]
      = [0, 0, 5, 2, 0, 0, 7, 1, 0]"
    by (simp only: sum.inject append_Nil)
  then have e: "PCData_decode [0, 0, 5, 2, 0, 0, 7, 1, 0] = Inr [(0, 0), (5, 1), (5, 1), (12, 0)]"
    using dec_eq [OF sc] by simp
  have b: "0 \<le> dpc \<longrightarrow>
      bind_err (Encoder_uvarint enc dpc) (\<lambda>enc1. Encoder_svarint enc1 didx) =
        Inr (enc @ record_bytes (dpc, didx))"
    by (simp add: Encoder_uvarint_bytes Encoder_svarint_bytes bind_err_def record_bytes_def)
  have c: "deltas (0, 0) [(0, 0), (5, 1), (5, 1), (12, 0)] = [(0, 0), (5, 1), (0, 0), (7, - 1)]"
    by simp
  show ?thesis
    using enc_eq [OF assms] dec_eq [OF assms] b c e Encoder_svarint_zigzag scenario_C_bytes
    by blast
qed

theorem PCData_encode_layout_witness:
  "sorted (0 # map fst [(0 :: int, 0 :: int), (5, 1), (5, 1), (12, 0)]) \<and>
   PCData_encode [] [(0, 0), (5, 1), (5, 1), (12, 0)] = Inr [0, 0, 5, 2, 0, 0, 7, 1, 0] \<and>
   PCData_decode [0, 0, 5, 2, 0, 0, 7, 1, 0] = Inr [(0, 0), (5, 1), (5, 1), (12, 0)]"
proof -
  have s: "sorted (0 # map fst [(0 :: int, 0 :: int), (5, 1), (5, 1), (12, 0)])" by simp
  show ?thesis
    using PCData_encode_layout [OF s, of "[]" 0 0] s by blast
qed

section \<open>Properties of the liveness filter\<close>

lemma filter_loop_snoc:
  "filter_loop acc prev (with_bitmap rs) = Inr out \<Longrightarrow>
   filter_loop acc prev (with_bitmap (rs @ [(pc, b)])) =
     Inr (if b AND NOT (if rs = [] then prev else snd (last rs)) \<noteq> 0 then out @ [(pc, Some b)] else out)"
proof (induction rs arbitrary: acc prev)
  case Nil
  then show ?case by (simp add: with_bitmap_def)
next
  case (Cons r rs)
  obtain pc' b' where r: "r = (pc', b')" by (cases r)
  show ?case
    using Cons.IH [of "if b' AND NOT prev \<noteq> 0 then acc @ [(pc', Some b')] else acc" b'] Cons.prems
    by (simp add: with_bitmap_def r)
qed

lemma filterLiveToDead_eq:
  "filterLiveToDead (with_bitmap rs) =
     Inr (with_bitmap (map (\<lambda>i. rs ! i) (filter (newly_live rs) [0..<length rs])))"
proof (induction rs rule: rev_induct)
  case Nil
  then show ?case by (simp add: filterLiveToDead_def with_bitmap_def)
next
  case (snoc r rs)
  obtain pc b where r: "r = (pc, b)" by (cases r)
  let ?n = "length rs"
  have same: "filter (newly_live (rs @ [r])) [0..<?n] = filter (newly_live rs) [0..<?n]"
    by (rule filter_cong) (auto simp: newly_live_def nth_append)
  have m: "map (\<lambda>i. (rs @ [r]) ! i) (filter (newly_live rs) [0..<?n]) =
           map (\<lambda>i. rs ! i) (filter (newly_live rs) [0..<?n])"
    by (rule map_cong) (auto simp: nth_append)
  have nl: "newly_live (rs @ [r]) ?n = (b AND NOT (if rs = [] then 0 else snd (last rs)) \<noteq> 0)"
    by (cases "rs = []") (auto simp: newly_live_def r nth_append last_conv_nth)
  have "filter_loop [] 0 (with_bitmap (rs @ [(pc, b)])) =
     Inr (if b AND NOT (if rs = [] then 0 else snd (last rs)) \<noteq> 0
          then with_bitmap (map (\<lambda>i. rs ! i) (filter (newly_live rs) [0..<?n])) @ [(pc, Some b)]
          else with_bitmap (map (\<lambda>i. rs ! i) (filter (newly_live rs) [0..<?n])))"
    using snoc.IH unfolding filterLiveToDead_def by (rule filter_loop_snoc)
  then show ?case
    unfolding filterLiveToDead_def r [symmetric]
    using same m nl by (simp add: with_bitmap_def r)
qed

lemma filterLiveToDead_sentinel_raises:
  "filterLiveToDead ((pc, None) # rest) = Inl NameError"
  by (simp add: filterLiveToDead_def)

text \<open>
  Claim C3, as stated, fails: the bitmap a record is compared with is the bitmap of the
  record just before it, kept or dropped, not the last kept one. From the stream
  \<open>(0, 0b011), (4, 0b001), (8, 0b010)\<close> the third record is kept, although its bits are
  a subset of the bits of the last kept bitmap \<open>0b011\<close>.
\<close>

theorem filterLiveToDead_prev_kept_counterexample:
  "filterLiveToDead [(0, Some 3), (4, Some 1), (8, Some 2)] = Inr [(0, Some 3), (8, Some 2)] \<and>
   (2 :: int) AND NOT 3 = 0"
  by (simp add: filterLiveToDead_def)

text \<open>
  Claim C3, amended. On a stream in which every record carries a bitmap,
  \<open>filterLiveToDead\<close> keeps, in order, exactly the records whose bitmap has at least one bit
  set that is not set in the bitmap of the record immediately before it in the input (0
  for the first record), whether that record was kept or dropped, and drops the others;
  in particular \<open>(0, 0b001), (4, 0b011), (8, 0b010)\<close> becomes \<open>(0, 0b001), (4, 0b011)\<close>.
\<close>

theorem filterLiveToDead_keeps_newly_live:
  "filterLiveToDead (with_bitmap rs) =
     Inr (with_bitmap (map (\<lambda>i. rs ! i) (filter (newly_live rs) [0..<length rs]))) \<and>
   filterLiveToDead [(0, Some 1), (4, Some 3), (8, Some 2)] = Inr [(0, Some 1), (4, Some 3)]"
proof -
  have "filterLiveToDead [(0, Some 1), (4, Some 3), (8, Some 2)] = Inr [(0, Some 1), (4, Some 3)]"
    by (simp add: filterLiveToDead_def)
  then show ?thesis using filterLiveToDead_eq by blast
qed

theorem filterLiveToDead_keeps_newly_live_witness:
  "filterLiveToDead (with_bitmap [(0, 3), (4, 1), (8, 2)]) = Inr (with_bitmap [(0, 3), (8, 2)])"
proof -
  have "filter (newly_live [(0, 3), (4, 1), (8, 2)]) [0..<3] = [0, 2]"
    by (simp add: newly_live_def upt_rec)
  moreover have "length [(0 :: int, 3 :: int), (4, 1), (8, 2)] = 3" by simp
  moreover have "filterLiveToDead (with_bitmap [(0, 3), (4, 1), (8, 2)]) =
     Inr (with_bitmap (map (\<lambda>i. [(0, 3), (4, 1), (8, 2)] ! i)
       (filter (newly_live [(0, 3), (4, 1), (8, 2)]) [0..<length [(0 :: int, 3 :: int), (4, 1), (8, 2)]])))"
    using filterLiveToDead_keeps_newly_live [of "[(0, 3), (4, 1), (8, 2)]"] by blast
  ultimately show ?thesis by (simp only: list.map nth_Cons_0 nth_Cons_numeral) simp
qed

section \<open>Properties of the bitmap table\<close>

text \<open>
  Claim C2: \<open>sort\<close> is claimed to return the permutation from old index to new index. On
  the table \<open>2, 3, 1\<close> it returns \<open>2, 0, 1\<close>, the old index of each new entry: the bitmap
  formerly at index 0 is 2, and the entry at index \<open>perm[0] = 2\<close> of the sorted table is 3.
\<close>

theorem sort_returns_new_to_old:
  "Stackmap_sort \<lparr>nbit = 2, bitmaps = [2, 3, 1]\<rparr> = ([2, 0, 1], \<lparr>nbit = 2, bitmaps = [1, 2, 3]\<rparr>) \<and>
   [1, 2, 3 :: int] ! ([2, 0, 1] ! 0) \<noteq> [2, 3, 1] ! 0"
  by (simp add: Stackmap_sort_def enumerate_eq_zip upt_rec)

lemma sorted_map_fst:
  "sorted (xs :: (int \<times> nat) list) \<Longrightarrow> sorted (map fst xs)"
  by (induction xs) (auto simp: less_eq_prod_def)

lemma Stackmap_sort_new_to_old:
  "Stackmap_sort self = (perm, self1) \<Longrightarrow>
   bitmaps self1 = map (\<lambda>j. bitmaps self ! j) perm \<and> sorted (bitmaps self1) \<and>
   set perm = {0..<length (bitmaps self)} \<and> length perm = length (bitmaps self)"
proof -
  assume a: "Stackmap_sort self = (perm, self1)"
  let ?bs = "bitmaps self"
  let ?s = "sort (map (\<lambda>(i, b). (b, i)) (enumerate 0 ?bs))"
  have p: "perm = map snd ?s" and b: "bitmaps self1 = map fst ?s"
    using a by (auto simp: Stackmap_sort_def Let_def)
  have el: "\<forall>x\<in>set ?s. fst x = ?bs ! snd x"
    by (auto simp: in_set_enumerate_eq)
  have "map fst ?s = map (\<lambda>x. ?bs ! snd x) ?s"
    by (rule map_cong) (use el in auto)
  then have 1: "bitmaps self1 = map (\<lambda>j. ?bs ! j) perm" by (simp add: p b comp_def)
  have "sorted ?s" by simp
  then have 2: "sorted (map fst ?s)" by (rule sorted_map_fst)
  have "set (map snd ?s) = snd ` (\<lambda>(i, b). (b, i)) ` set (enumerate 0 ?bs)" by simp
  also have "\<dots> = fst ` set (enumerate 0 ?bs)" by (auto simp: image_image case_prod_beta)
  also have "\<dots> = {0..<length ?bs}" by (simp flip: set_map)
  finally have 3: "set perm = {0..<length ?bs}" by (simp add: p)
  show ?thesis using 1 2 3 by (simp add: b p)
qed

lemma add_loop_nonneg:
  "0 \<le> b \<Longrightarrow> \<exists>n. add_loop k b = Some (k + int n) \<and> b < 2 ^ n"
proof (induction "nat b" arbitrary: b k rule: less_induct)
  case less
  show ?case
  proof (cases "b = 0")
    case True
    then have "add_loop k b = Some (k + int 0)" by (subst add_loop.simps) simp
    then show ?thesis using True by (intro exI [of _ 0]) simp
  next
    case False
    then have pos: "0 < b" using less.prems by simp
    then have "nat (b div 2) < nat b" by simp
    moreover have "0 \<le> b div 2" using pos by simp
    ultimately obtain n where n: "add_loop (k + 1) (b div 2) = Some (k + 1 + int n)" and
        bn: "b div 2 < 2 ^ n"
      using less.hyps [of "b div 2" "k + 1"] by blast
    have "add_loop k b = add_loop (k + 1) (b div 2)"
      using False by (subst add_loop.simps) (simp add: drop_bit_eq_div)
    then have "add_loop k b = Some (k + int (Suc n))" using n by simp
    moreover have "b < 2 ^ Suc n" using bn by simp
    ultimately show ?thesis by blast
  qed
qed

lemma Stackmap_add_ok:
  assumes "table_ok T" and "0 \<le> bitmap"
  shows "\<exists>i T1. Stackmap_add T bitmap = Some (i, T1) \<and> table_ok T1"
proof -
  obtain n where n: "add_loop 0 bitmap = Some (int n)" and bn: "bitmap < 2 ^ n"
    using add_loop_nonneg [OF assms(2), of 0] by auto
  let ?w = "max (int n) (nbit T)"
  have w0: "0 \<le> ?w" by simp
  have mono: "(2::int) ^ nat (nbit T) \<le> 2 ^ nat ?w" by (intro power_increasing) auto
  have "(2::int) ^ n \<le> 2 ^ nat ?w" by (intro power_increasing) auto
  then have bw: "bitmap < 2 ^ nat ?w" using bn by linarith
  have old: "\<forall>b\<in>set (bitmaps T). 0 \<le> b \<and> b < 2 ^ nat ?w"
    using assms(1) mono unfolding table_ok_def by (meson less_le_trans)
  show ?thesis
  proof (cases "add_scan bitmap (bitmaps T) 0")
    case None
    then have "Stackmap_add T bitmap =
       Some (int (length (bitmaps T)), \<lparr>nbit = ?w, bitmaps = bitmaps T @ [bitmap]\<rparr>)"
      by (simp add: Stackmap_add_def n Let_def)
    moreover have "table_ok \<lparr>nbit = ?w, bitmaps = bitmaps T @ [bitmap]\<rparr>"
      using old bw assms(2) w0 by (auto simp: table_ok_def)
    ultimately show ?thesis by blast
  next
    case (Some i)
    then have "Stackmap_add T bitmap = Some (int i, \<lparr>nbit = ?w, bitmaps = bitmaps T\<rparr>)"
      by (simp add: Stackmap_add_def n Let_def)
    moreover have "table_ok \<lparr>nbit = ?w, bitmaps = bitmaps T\<rparr>"
      using old w0 by (auto simp: table_ok_def)
    ultimately show ?thesis by blast
  qed
qed

lemma add_all_ok:
  "table_ok T \<Longrightarrow> \<forall>b\<in>set bs. 0 \<le> b \<Longrightarrow> \<exists>T1. add_all T bs = Some T1 \<and> table_ok T1"
proof (induction bs arbitrary: T)
  case Nil
  then show ?case by simp
next
  case (Cons b bs)
  obtain i T1 where a: "Stackmap_add T b = Some (i, T1)" and ok: "table_ok T1"
    using Stackmap_add_ok [OF Cons.prems(1), of b] Cons.prems(2) by auto
  show ?case using Cons.IH [OF ok] Cons.prems(2) a by simp
qed

lemma fold_Encoder_bitmap:
  "fold (\<lambda>b e. Encoder_bitmap e b w) bs e0 = e0 @ concat (map (\<lambda>b. Encoder_bitmap [] b w) bs)"
proof (induction bs arbitrary: e0)
  case Nil
  then show ?case by simp
next
  case (Cons b bs)
  have "Encoder_bitmap e0 b w = e0 @ Encoder_bitmap [] b w" by (simp add: Encoder_bitmap_eq)
  then show ?case using Cons.IH [of "Encoder_bitmap e0 b w"] by simp
qed

lemma Stackmap_encode_expanded:
  "Stackmap_encode [] T False =
     Inr (Encoder_int32 [] (int (length (bitmaps T))) @ Encoder_int32 [] (nbit T) @
          concat (map (\<lambda>b. Encoder_bitmap [] b (nbit T)) (bitmaps T)))"
  by (simp add: Stackmap_encode_def Let_def fold_Encoder_bitmap Encoder_int32_def)

lemma read_bitmaps_written:
  assumes "0 \<le> w" and "\<forall>b\<in>set bs. 0 \<le> b \<and> b < 2 ^ nat w"
  shows "read_bitmaps (concat (map (\<lambda>b. Encoder_bitmap [] b w) bs) @ rest) w (length bs) = Inr (bs, rest)"
  using assms(2)
proof (induction bs)
  case Nil
  then show ?case by simp
next
  case (Cons b bs)
  let ?n = "nat ((w + 7) div 8)"
  have b: "0 \<le> b" "b < 2 ^ nat w" using Cons.prems by auto
  have "(2::int) ^ nat w \<le> 2 ^ (?n * 8)"
    using nbits_le_bytes [OF assms(1)] by (intro power_increasing) (auto simp: mult.commute)
  then have "b < 2 ^ (?n * 8)" using b(2) by linarith
  then have t: "take_bit (?n * 8) b = b" using b(1) by (simp add: take_bit_int_eq_self)
  have d: "Decoder_bitmap (Encoder_bitmap [] b w @
        (concat (map (\<lambda>b. Encoder_bitmap [] b w) bs) @ rest)) w =
      Inr (b, concat (map (\<lambda>b. Encoder_bitmap [] b w) bs) @ rest)"
    using Decoder_bitmap_Encoder_bitmap [OF assms(1), of b] t by simp
  have ih: "read_bitmaps (concat (map (\<lambda>b. Encoder_bitmap [] b w) bs) @ rest) w (length bs) =
      Inr (bs, rest)"
    using Cons by simp
  show ?case using d ih by (simp add: bind_err_def)
qed

lemma Stackmap_decode_expanded:
  assumes "table_ok T" and "length (bitmaps T) < 2 ^ 32" and "nbit T < 2 ^ 32"
  shows "Stackmap_decode (Encoder_int32 [] (int (length (bitmaps T))) @ Encoder_int32 [] (nbit T) @
          concat (map (\<lambda>b. Encoder_bitmap [] b (nbit T)) (bitmaps T))) = Inr T"
proof -
  let ?bm = "concat (map (\<lambda>b. Encoder_bitmap [] b (nbit T)) (bitmaps T))"
  have w: "0 \<le> nbit T" and bs: "\<forall>b\<in>set (bitmaps T). 0 \<le> b \<and> b < 2 ^ nat (nbit T)"
    using assms(1) by (auto simp: table_ok_def)
  have "int (length (bitmaps T)) < 2 ^ 32" using assms(2) by (simp add: nat_less_iff flip: of_nat_less_iff)
  then have n: "int (length (bitmaps T)) mod 2 ^ 32 = int (length (bitmaps T))" by simp
  have m: "nbit T mod 2 ^ 32 = nbit T" using w assms(3) by simp
  have 1: "Decoder_int32 (Encoder_int32 [] (int (length (bitmaps T))) @ (Encoder_int32 [] (nbit T) @ ?bm))
      = Inr (int (length (bitmaps T)), Encoder_int32 [] (nbit T) @ ?bm)"
    using Decoder_int32_Encoder_int32 [of "int (length (bitmaps T))"] n by simp
  have 2: "Decoder_int32 (Encoder_int32 [] (nbit T) @ ?bm) = Inr (nbit T, ?bm)"
    using Decoder_int32_Encoder_int32 [of "nbit T" ?bm] m by simp
  have 3: "read_bitmaps ?bm (nbit T) (length (bitmaps T)) = Inr (bitmaps T, [])"
    using read_bitmaps_written [OF w bs, of "[]"] by simp
  show ?thesis
    unfolding Stackmap_decode_def using 1 2 3 by (simp add: bind_err_def)
qed

text \<open>
  The count and the width are written as four bytes each: whatever the decoder returns for
  an Expanded encoding has the count and the width of the table modulo \<open>2 ^ 32\<close>.
\<close>

lemma read_bitmaps_length: "read_bitmaps b nb k = Inr (xs, r) \<Longrightarrow> length xs = k"
proof (induction k arbitrary: b xs)
  case 0
  then show ?case by simp
next
  case (Suc k)
  then show ?case
    by (auto simp: bind_err_def split: sum.splits prod.splits)
qed

lemma expanded_decode_truncates:
  assumes "Stackmap_encode [] T False = Inr enc" and "Stackmap_decode enc = Inr T1"
  shows "nbit T1 = nbit T mod 2 ^ 32 \<and>
         int (length (bitmaps T1)) = int (length (bitmaps T)) mod 2 ^ 32"
proof -
  let ?n = "int (length (bitmaps T))"
  let ?bm = "concat (map (\<lambda>b. Encoder_bitmap [] b (nbit T)) (bitmaps T))"
  have enc: "enc = Encoder_int32 [] ?n @ (Encoder_int32 [] (nbit T) @ ?bm)"
    using assms(1) by (simp add: Stackmap_encode_expanded)
  have 1: "Decoder_int32 enc = Inr (?n mod 2 ^ 32, Encoder_int32 [] (nbit T) @ ?bm)"
    unfolding enc by (rule Decoder_int32_Encoder_int32)
  have 2: "Decoder_int32 (Encoder_int32 [] (nbit T) @ ?bm) = Inr (nbit T mod 2 ^ 32, ?bm)"
    by (rule Decoder_int32_Encoder_int32)
  have d: "Stackmap_decode enc =
      bind_err (read_bitmaps ?bm (nbit T mod 2 ^ 32) (nat (?n mod 2 ^ 32)))
        (\<lambda>(bms, b3). Inr \<lparr>nbit = nbit T mod 2 ^ 32, bitmaps = bms\<rparr>)"
    using 1 2 by (simp add: Stackmap_decode_def bind_err_def)
  obtain bms b3 where r: "read_bitmaps ?bm (nbit T mod 2 ^ 32) (nat (?n mod 2 ^ 32)) = Inr (bms, b3)"
      and t: "T1 = \<lparr>nbit = nbit T mod 2 ^ 32, bitmaps = bms\<rparr>"
    using assms(2) unfolding d by (auto simp: bind_err_def split: sum.splits)
  have "length bms = nat (?n mod 2 ^ 32)" using read_bitmaps_length [OF r] .
  then show ?thesis using t by simp
qed

lemma add_all_1: "add_all Stackmap_empty [1] = Some \<lparr>nbit = 1, bitmaps = [1]\<rparr>"
  by (simp add: Stackmap_empty_def Stackmap_add_def add_loop.simps)

lemma add_all_123: "add_all Stackmap_empty [1, 2, 3] = Some \<lparr>nbit = 2, bitmaps = [1, 2, 3]\<rparr>"
  by (simp add: Stackmap_empty_def Stackmap_add_def add_loop.simps)

lemma encode_123:
  "Stackmap_encode [] \<lparr>nbit = 2, bitmaps = [1, 2, 3]\<rparr> False = Inr [3, 0, 0, 0, 2, 0, 0, 0, 1, 2, 3]"
  by (simp add: Stackmap_encode_def Encoder_int32_def Encoder_bitmap_def)

text \<open>
  Claim C1, as stated, fails for the Compact layout: the source has one decoder, the
  constructor \<open>Stackmap(dec)\<close>, which reads the Expanded layout only. On the Compact
  encoding of the table built by \<open>add(1)\<close>, six bytes, it reads the count and then runs past
  the end of the buffer while reading a four-byte width.
\<close>

theorem compact_decode_counterexample:
  "add_all Stackmap_empty [1] = Some \<lparr>nbit = 1, bitmaps = [1]\<rparr> \<and>
   Stackmap_encode [] \<lparr>nbit = 1, bitmaps = [1]\<rparr> True = Inr [1, 0, 0, 0, 1, 1] \<and>
   Stackmap_decode [1, 0, 0, 0, 1, 1] = Inl IndexError"
proof -
  have "Stackmap_encode [] \<lparr>nbit = 1, bitmaps = [1]\<rparr> True = Inr [1, 0, 0, 0, 1, 1]"
    by (simp add: Stackmap_encode_def Encoder_int32_def Encoder_bitmap_def Encoder_uint8_def
        bytearray_append_def bind_err_def)
  moreover have "Stackmap_decode [1, 0, 0, 0, 1, 1] = Inl IndexError"
    by (simp add: Stackmap_decode_def Decoder_int32_def bind_err_def slice_from_def)
  ultimately show ?thesis using add_all_1 by simp
qed

text \<open>
  Claim C1, amended. Every sequence of \<open>add\<close> of non-negative bitmaps to the empty table
  returns a table; if the table has fewer than \<open>2 ^ 32\<close> entries and a width below \<open>2 ^ 32\<close>
  (the count and the width are written as four bytes each), decoding its Expanded encoding
  yields an equal table: the same count, the same width and the same bitmaps in the same
  order.
\<close>

theorem expanded_roundtrip:
  assumes "\<forall>b\<in>set bs. 0 \<le> b"
  shows "\<exists>T. add_all Stackmap_empty bs = Some T \<and>
           (length (bitmaps T) < 2 ^ 32 \<and> nbit T < 2 ^ 32 \<longrightarrow>
              (\<exists>enc. Stackmap_encode [] T False = Inr enc \<and> Stackmap_decode enc = Inr T))"
proof -
  have "table_ok Stackmap_empty" by (simp add: table_ok_def Stackmap_empty_def)
  then obtain T where T: "add_all Stackmap_empty bs = Some T" and ok: "table_ok T"
    using add_all_ok [OF _ assms] by blast
  have "length (bitmaps T) < 2 ^ 32 \<and> nbit T < 2 ^ 32 \<longrightarrow>
      (\<exists>enc. Stackmap_encode [] T False = Inr enc \<and> Stackmap_decode enc = Inr T)"
    using Stackmap_encode_expanded [of T] Stackmap_decode_expanded [OF ok] by simp
  then show ?thesis using T by blast
qed

theorem expanded_roundtrip_witness:
  "add_all Stackmap_empty [1, 2, 3] = Some \<lparr>nbit = 2, bitmaps = [1, 2, 3]\<rparr> \<and>
   Stackmap_encode [] \<lparr>nbit = 2, bitmaps = [1, 2, 3]\<rparr> False =
     Inr [3, 0, 0, 0, 2, 0, 0, 0, 1, 2, 3] \<and>
   Stackmap_decode [3, 0, 0, 0, 2, 0, 0, 0, 1, 2, 3] = Inr \<lparr>nbit = 2, bitmaps = [1, 2, 3]\<rparr>"
proof -
  have h: "\<forall>b\<in>set [1, 2, 3 :: int]. 0 \<le> b" by simp
  show ?thesis
    using expanded_roundtrip [OF h] h add_all_123 encode_123 by auto
qed

section \<open>Properties of the Huffman builder\<close>

lemma huffman_step_eq:
  "huffman_step r code =
     (let c1 = sort_key (\<lambda>x. - fst x) code;
          k = (if length code < r then 0 else length code - r)
      in take k c1 @ [(sum_list (map fst (drop k c1)), Internal (map snd (drop k c1)))])"
  by (simp add: huffman_step_def Let_def)

lemma huffman_step_length:
  assumes "2 \<le> r" and "1 < length code"
  shows "length (huffman_step r code) < length code" and "huffman_step r code \<noteq> []"
  using assms by (auto simp: huffman_step_eq Let_def)

lemma huffman_step_arity:
  assumes "\<forall>x\<in>set code. arity_ok r (snd x)"
  shows "\<forall>x\<in>set (huffman_step r code). arity_ok r (snd x)"
proof -
  let ?c1 = "sort_key (\<lambda>x. - fst x) code"
  let ?k = "if length code < r then 0 else length code - r"
  have all: "\<forall>x\<in>set ?c1. arity_ok r (snd x)" using assms by simp
  have t: "\<forall>x\<in>set (take ?k ?c1). arity_ok r (snd x)"
    using all by (meson in_set_takeD)
  have d: "\<forall>x\<in>set (drop ?k ?c1). arity_ok r (snd x)"
    using all by (meson in_set_dropD)
  have "length (drop ?k ?c1) \<le> r" by auto
  then have "arity_ok r (Internal (map snd (drop ?k ?c1)))" using d by simp
  then show ?thesis using t unfolding huffman_step_eq Let_def by auto
qed

lemma huffman_step_leaves:
  "(\<Union>x\<in>set (huffman_step r code). leaves (snd x)) = (\<Union>x\<in>set code. leaves (snd x))"
proof -
  define c1 where "c1 = sort_key (\<lambda>x. - fst x) code"
  define k where "k = (if length code < r then 0 else length code - r)"
  have e: "huffman_step r code =
      take k c1 @ [(sum_list (map fst (drop k c1)), Internal (map snd (drop k c1)))]"
    by (simp add: huffman_step_eq Let_def c1_def k_def)
  have "set (take k c1) \<union> set (drop k c1) = set c1"
    by (metis append_take_drop_id set_append)
  then have "(\<Union>x\<in>set (take k c1). leaves (snd x)) \<union> (\<Union>x\<in>set (drop k c1). leaves (snd x))
      = (\<Union>x\<in>set c1. leaves (snd x))"
    by (metis UN_Un)
  moreover have "set c1 = set code" by (simp add: c1_def)
  ultimately show ?thesis unfolding e by (simp add: Un_commute)
qed

lemma huffman_loop_invariant:
  assumes r: "2 \<le> r"
    and step: "\<And>c. P c \<Longrightarrow> 1 < length c \<Longrightarrow> P (huffman_step r c)"
  shows "P code \<Longrightarrow> \<exists>res. huffman_loop r code = Some res \<and> P res \<and> length res \<le> 1 \<and>
           (code \<noteq> [] \<longrightarrow> res \<noteq> [])"
proof (induction "length code" arbitrary: code rule: less_induct)
  case less
  show ?case
  proof (cases "1 < length code")
    case True
    have l: "length (huffman_step r code) < length code" and ne: "huffman_step r code \<noteq> []"
      using huffman_step_length [OF r True] by auto
    obtain res where res: "huffman_loop r (huffman_step r code) = Some res" "P res"
        "length res \<le> 1" "res \<noteq> []"
      using less.hyps [OF l step [OF less.prems True]] ne by blast
    have "huffman_loop r code = huffman_loop r (huffman_step r code)"
      using True by (subst huffman_loop.simps) simp
    then show ?thesis using res by simp
  next
    case False
    then have "huffman_loop r code = Some code" by (subst huffman_loop.simps) simp
    then show ?thesis using False less.prems by simp
  qed
qed

lemma is_bit_prefix_bits:
  assumes "is_bit_prefix (c1, l1) (c2, l2)"
  shows "l1 \<le> l2" and "take_bit l1 (drop_bit (l2 - l1) c2) = take_bit l1 c1"
proof -
  have "take l1 (bits_of (c2, l2)) = bits_of (c1, l1)"
    using assms by (simp add: is_bit_prefix_def)
  then obtain zs where zs: "bits_of (c2, l2) = bits_of (c1, l1) @ zs"
    by (metis append_take_drop_id)
  have len: "l2 = l1 + length zs"
    using arg_cong [OF zs, of length] by (simp add: bits_of_def)
  then show "l1 \<le> l2" by simp
  have nth: "bits_of (c2, l2) ! i = bits_of (c1, l1) ! i" if "i < l1" for i
    using that unfolding zs by (simp add: nth_append bits_of_def)
  have b: "bit c2 (l2 - l1 + n) = bit c1 n" if "n < l1" for n
  proof -
    have i: "l1 - 1 - n < l1" using that by simp
    have "l1 - 1 - n < l2" using i len by simp
    then have "bits_of (c2, l2) ! (l1 - 1 - n) = bit c2 (l2 - 1 - (l1 - 1 - n))"
      by (simp add: bits_of_def)
    moreover have "bits_of (c1, l1) ! (l1 - 1 - n) = bit c1 (l1 - 1 - (l1 - 1 - n))"
      using i by (simp add: bits_of_def)
    moreover have "l2 - 1 - (l1 - 1 - n) = l2 - l1 + n" using that len by simp
    moreover have "l1 - 1 - (l1 - 1 - n) = n" using that by simp
    ultimately show ?thesis using nth [OF i] by simp
  qed
  show "take_bit l1 (drop_bit (l2 - l1) c2) = take_bit l1 c1"
    by (rule bit_eqI) (auto simp: bit_simps b)
qed

lemma int_div_less:
  assumes "0 < d" and "(a::int) < m * d"
  shows "a div d < m"
proof (rule ccontr)
  assume "\<not> a div d < m"
  then have "m \<le> a div d" by simp
  then have "m * d \<le> a div d * d" using assms(1) by (simp add: mult_right_mono)
  moreover have "a div d * d + a mod d = a" by simp
  moreover have "0 \<le> a mod d" using pos_mod_sign [OF assms(1), of a] .
  ultimately show False using assms(2) by linarith
qed

lemma is_bit_prefix_drop:
  assumes "is_bit_prefix (c1, l1) (c2, l2)" and "0 \<le> c1" "c1 < 2 ^ l1" "0 \<le> c2" "c2 < 2 ^ l2"
  shows "l1 \<le> l2 \<and> drop_bit (l2 - l1) c2 = c1"
proof -
  have le: "l1 \<le> l2" and t: "take_bit l1 (drop_bit (l2 - l1) c2) = take_bit l1 c1"
    using is_bit_prefix_bits [OF assms(1)] by auto
  have "c2 < 2 ^ l1 * 2 ^ (l2 - l1)" using assms(5) le by (simp flip: power_add)
  then have "c2 div 2 ^ (l2 - l1) < 2 ^ l1"
    by (intro int_div_less) auto
  moreover have "0 \<le> c2 div 2 ^ (l2 - l1)" using assms(4) by (simp add: pos_imp_zdiv_nonneg_iff)
  ultimately have a: "take_bit l1 (drop_bit (l2 - l1) c2) = drop_bit (l2 - l1) c2"
    by (simp add: take_bit_int_eq_self drop_bit_eq_div)
  have b: "take_bit l1 c1 = c1" using assms(2,3) by (simp add: take_bit_int_eq_self)
  have "drop_bit (l2 - l1) c2 = c1" using a b t by metis
  then show ?thesis using le by blast
qed

lemma in_concat_map: "y \<in> set xs \<Longrightarrow> x \<in> set (f y) \<Longrightarrow> x \<in> set (concat (map f xs))"
  by auto

lemma mktree_Internal_mem:
  "x \<in> set (mktree sa (Internal ts) cw bits) \<longleftrightarrow>
     (\<exists>i<length ts. x \<in> set (mktree sa (ts ! i) (push_bit sa cw + int i) (bits + sa)))"
proof
  assume "x \<in> set (mktree sa (Internal ts) cw bits)"
  then show "\<exists>i<length ts. x \<in> set (mktree sa (ts ! i) (push_bit sa cw + int i) (bits + sa))"
    by (auto simp: in_set_enumerate_eq)
next
  assume "\<exists>i<length ts. x \<in> set (mktree sa (ts ! i) (push_bit sa cw + int i) (bits + sa))"
  then obtain i where i: "i < length ts"
      and x: "x \<in> set (mktree sa (ts ! i) (push_bit sa cw + int i) (bits + sa))"
    by blast
  have m: "(i, ts ! i) \<in> set (enumerate 0 ts)" using i by (simp add: in_set_enumerate_eq)
  have "x \<in> set ((\<lambda>(i, child). mktree sa child (push_bit sa cw + int i) (bits + sa)) (i, ts ! i))"
    using x by simp
  then have "x \<in> set (concat (map (\<lambda>(i, child).
      mktree sa child (push_bit sa cw + int i) (bits + sa)) (enumerate 0 ts)))"
    using m by (rule in_concat_map [rotated])
  then show "x \<in> set (mktree sa (Internal ts) cw bits)" by simp
qed

lemma mktree_in_leaves: "(s, cb) \<in> set (mktree sa n cw bits) \<Longrightarrow> s \<in> leaves n"
proof (induction sa n cw bits rule: mktree.induct)
  case (1 sa s' cw bits)
  then show ?case by simp
next
  case (2 sa ts cw bits)
  obtain i where i: "i < length ts"
      and x: "(s, cb) \<in> set (mktree sa (ts ! i) (push_bit sa cw + int i) (bits + sa))"
    using "2.prems" unfolding mktree_Internal_mem by blast
  have "(i, ts ! i) \<in> set (enumerate 0 ts)" using i by (simp add: in_set_enumerate_eq)
  then have "s \<in> leaves (ts ! i)" using "2.IH" [of "(i, ts ! i)" i "ts ! i"] x by simp
  then show ?case using i by auto
qed

lemma leaves_in_mktree: "s \<in> leaves n \<Longrightarrow> \<exists>cb. (s, cb) \<in> set (mktree sa n cw bits)"
proof (induction sa n cw bits rule: mktree.induct)
  case (1 sa s' cw bits)
  then show ?case by simp
next
  case (2 sa ts cw bits)
  obtain i where i: "i < length ts" and s: "s \<in> leaves (ts ! i)"
    using "2.prems" by (auto simp: in_set_conv_nth)
  have "(i, ts ! i) \<in> set (enumerate 0 ts)" using i by (simp add: in_set_enumerate_eq)
  then obtain cb where "(s, cb) \<in> set (mktree sa (ts ! i) (push_bit sa cw + int i) (bits + sa))"
    using "2.IH" [of "(i, ts ! i)" i "ts ! i"] s by auto
  then show ?case unfolding mktree_Internal_mem using i by blast
qed

lemma child_codeword:
  assumes "0 \<le> cw" and "cw < 2 ^ bits" and "i < (2::nat) ^ sa"
  shows "0 \<le> push_bit sa cw + int i" and "push_bit sa cw + int i < 2 ^ (bits + sa)"
    and "drop_bit sa (push_bit sa cw + int i) = cw"
proof -
  have i: "int i < 2 ^ sa" using assms(3) by (metis of_nat_less_iff of_nat_numeral of_nat_power)
  show "0 \<le> push_bit sa cw + int i" using assms(1) by simp
  have "cw + 1 \<le> 2 ^ bits" using assms(2) by simp
  then have "(cw + 1) * 2 ^ sa \<le> 2 ^ bits * 2 ^ sa" by (intro mult_right_mono) auto
  then have h: "cw * 2 ^ sa + 2 ^ sa \<le> 2 ^ (bits + sa)" by (simp add: algebra_simps power_add)
  have pb: "push_bit sa cw = cw * 2 ^ sa" by (simp add: push_bit_eq_mult)
  show "push_bit sa cw + int i < 2 ^ (bits + sa)" unfolding pb using i h by linarith
  have "(int i + cw * 2 ^ sa) div 2 ^ sa = int i div 2 ^ sa + cw" by simp
  moreover have "int i div 2 ^ sa = 0" using i by simp
  ultimately show "drop_bit sa (push_bit sa cw + int i) = cw"
    by (simp add: drop_bit_eq_div push_bit_eq_mult add.commute)
qed

lemma mktree_code_extends:
  "arity_ok (2 ^ sa) n \<Longrightarrow> 0 \<le> cw \<Longrightarrow> cw < 2 ^ bits \<Longrightarrow>
   (s, (c, l)) \<in> set (mktree sa n cw bits) \<Longrightarrow>
   bits \<le> l \<and> drop_bit (l - bits) c = cw \<and> 0 \<le> c \<and> c < 2 ^ l"
proof (induction sa n cw bits rule: mktree.induct)
  case (1 sa s' cw bits)
  then show ?case by simp
next
  case (2 sa ts cw bits)
  obtain i where i: "i < length ts"
      and x: "(s, (c, l)) \<in> set (mktree sa (ts ! i) (push_bit sa cw + int i) (bits + sa))"
    using "2.prems"(4) unfolding mktree_Internal_mem by blast
  have m: "(i, ts ! i) \<in> set (enumerate 0 ts)" using i by (simp add: in_set_enumerate_eq)
  have ar: "arity_ok (2 ^ sa) (ts ! i)" and i2: "i < 2 ^ sa"
    using "2.prems"(1) i by auto
  note cc = child_codeword [OF "2.prems"(2) "2.prems"(3) i2]
  have ih: "bits + sa \<le> l \<and> drop_bit (l - (bits + sa)) c = push_bit sa cw + int i \<and>
      0 \<le> c \<and> c < 2 ^ l"
    using "2.IH" [OF m refl ar cc(1) cc(2) x] .
  have "l - bits = sa + (l - (bits + sa))" using ih by simp
  then have "drop_bit (l - bits) c = drop_bit sa (drop_bit (l - (bits + sa)) c)"
    by (simp only: drop_bit_drop_bit)
  then have "drop_bit (l - bits) c = cw" using ih cc(3) by simp
  then show ?case using ih by simp
qed

lemma mktree_prefix_free:
  "arity_ok (2 ^ sa) n \<Longrightarrow> 0 \<le> cw \<Longrightarrow> cw < 2 ^ bits \<Longrightarrow>
   (s1, (c1, l1)) \<in> set (mktree sa n cw bits) \<Longrightarrow>
   (s2, (c2, l2)) \<in> set (mktree sa n cw bits) \<Longrightarrow> s1 \<noteq> s2 \<Longrightarrow>
   \<not> (l1 \<le> l2 \<and> drop_bit (l2 - l1) c2 = c1)"
proof (induction sa n cw bits rule: mktree.induct)
  case (1 sa s' cw bits)
  then show ?case by simp
next
  case (2 sa ts cw bits)
  obtain i where i: "i < length ts"
      and x1: "(s1, (c1, l1)) \<in> set (mktree sa (ts ! i) (push_bit sa cw + int i) (bits + sa))"
    using "2.prems"(4) unfolding mktree_Internal_mem by blast
  obtain j where j: "j < length ts"
      and x2: "(s2, (c2, l2)) \<in> set (mktree sa (ts ! j) (push_bit sa cw + int j) (bits + sa))"
    using "2.prems"(5) unfolding mktree_Internal_mem by blast
  have m: "(i, ts ! i) \<in> set (enumerate 0 ts)" using i by (simp add: in_set_enumerate_eq)
  have ari: "arity_ok (2 ^ sa) (ts ! i)" and i2: "i < 2 ^ sa"
    using "2.prems"(1) i by auto
  have arj: "arity_ok (2 ^ sa) (ts ! j)" and j2: "j < 2 ^ sa"
    using "2.prems"(1) j by auto
  note ci = child_codeword [OF "2.prems"(2) "2.prems"(3) i2]
  note cj = child_codeword [OF "2.prems"(2) "2.prems"(3) j2]
  show ?case
  proof (cases "i = j")
    case True
    show ?thesis
      using "2.IH" [OF m refl ari ci(1) ci(2) x1 _ "2.prems"(6)] x2 True by simp
  next
    case False
    have e1: "bits + sa \<le> l1 \<and> drop_bit (l1 - (bits + sa)) c1 = push_bit sa cw + int i"
      using mktree_code_extends [OF ari ci(1) ci(2) x1] by simp
    have e2: "bits + sa \<le> l2 \<and> drop_bit (l2 - (bits + sa)) c2 = push_bit sa cw + int j"
      using mktree_code_extends [OF arj cj(1) cj(2) x2] by simp
    show ?thesis
    proof
      assume p: "l1 \<le> l2 \<and> drop_bit (l2 - l1) c2 = c1"
      have "l2 - (bits + sa) = (l1 - (bits + sa)) + (l2 - l1)" using p e1 by simp
      then have "drop_bit (l2 - (bits + sa)) c2 = drop_bit (l1 - (bits + sa)) (drop_bit (l2 - l1) c2)"
        by (simp only: drop_bit_drop_bit)
      then have "push_bit sa cw + int j = push_bit sa cw + int i" using p e1 e2 by simp
      then show False using False by simp
    qed
  qed
qed

lemma fold_upd_lookup:
  "fold (\<lambda>(s, cb) tree. tree(s \<mapsto> cb)) W m s = Some v \<Longrightarrow> (s, v) \<in> set W \<or> m s = Some v"
proof (induction W arbitrary: m)
  case Nil
  then show ?case by simp
next
  case (Cons w W)
  obtain s' cb where w: "w = (s', cb)" by (cases w)
  have "(s, v) \<in> set W \<or> (m(s' \<mapsto> cb)) s = Some v"
    using Cons.IH [of "m(s' \<mapsto> cb)"] Cons.prems by (simp add: w)
  then show ?case by (auto simp: w split: if_splits)
qed

lemma fold_upd_dom:
  "dom (fold (\<lambda>(s, cb) tree. tree(s \<mapsto> cb)) W m) = dom m \<union> fst ` set W"
proof (induction W arbitrary: m)
  case Nil
  then show ?case by simp
next
  case (Cons w W)
  obtain s' cb where w: "w = (s', cb)" by (cases w)
  show ?case using Cons.IH [of "m(s' \<mapsto> cb)"] by (auto simp: w)
qed

lemma huffman_loop_result:
  assumes "counts \<noteq> []" and "1 \<le> sa"
  shows "\<exists>w root. huffman_loop (2 ^ sa) (map (\<lambda>(val, count). (count, Leaf val)) counts)
             = Some [(w, root)] \<and>
           arity_ok (2 ^ sa) root \<and> leaves root = fst ` set counts"
proof -
  let ?r = "(2::nat) ^ sa"
  let ?code = "map (\<lambda>(val, count). (count, Leaf val)) counts"
  let ?P = "\<lambda>c :: (int \<times> 'a node) list.
      (\<forall>x\<in>set c. arity_ok ?r (snd x)) \<and> (\<Union>x\<in>set c. leaves (snd x)) = fst ` set counts"
  have "(2::nat) ^ 1 \<le> 2 ^ sa" using assms(2) by (intro power_increasing) auto
  then have r: "2 \<le> ?r" by simp
  have step: "?P (huffman_step ?r c)" if "?P c" for c
    using that huffman_step_arity [of c ?r] huffman_step_leaves [of ?r c] by simp
  have init: "?P ?code" by (auto simp: case_prod_beta image_iff)
  have ne: "?code \<noteq> []" using assms(1) by simp
  obtain res where res: "huffman_loop ?r ?code = Some res" "?P res" "length res \<le> 1" "res \<noteq> []"
    using huffman_loop_invariant [of ?r ?P ?code, OF r step init] ne by blast
  obtain w root where wr: "res = [(w, root)]"
    using res(3,4) by (cases res) (auto simp: length_Suc_conv)
  show ?thesis using res(1,2) unfolding wr by simp
qed

text \<open>
  Claim C7. For every frequency table with at least two symbols and every
  \<open>streamAlign \<ge> 1\<close>, \<open>huffman\<close> returns a code table; it gives a codeword to every symbol of
  the frequency table and to nothing else, every codeword fits its stated bit length, and
  no codeword, read at its stated bit length, is a prefix of the codeword of another
  symbol.
\<close>

theorem huffman_prefix_free:
  assumes "2 \<le> length counts" and "distinct (map fst counts)" and "1 \<le> streamAlign"
  shows "\<exists>tree. huffman counts streamAlign = Some (Inr tree) \<and>
           dom tree = fst ` set counts \<and>
           (\<forall>s1 s2 cb1 cb2. tree s1 = Some cb1 \<and> tree s2 = Some cb2 \<and> s1 \<noteq> s2 \<longrightarrow>
              \<not> is_bit_prefix cb1 cb2) \<and>
           (\<forall>s c l. tree s = Some (c, l) \<longrightarrow> 0 \<le> c \<and> c < 2 ^ l)"
proof -
  have ne: "counts \<noteq> []" using assms(1) by auto
  obtain w root where loop: "huffman_loop (2 ^ streamAlign)
        (map (\<lambda>(val, count). (count, Leaf val)) counts) = Some [(w, root)]"
      and ar: "arity_ok (2 ^ streamAlign) root" and lv: "leaves root = fst ` set counts"
    using huffman_loop_result [OF ne assms(3)] by blast
  let ?W = "mktree streamAlign root 0 0"
  let ?tree = "fold (\<lambda>(s, cb) tree. tree(s \<mapsto> cb)) ?W Map.empty"
  have h: "huffman counts streamAlign = Some (Inr ?tree)"
    by (simp add: huffman_def Let_def loop)
  have "fst ` set ?W = leaves root"
    using mktree_in_leaves [of _ _ streamAlign root 0 0] leaves_in_mktree [of _ root streamAlign 0 0]
    by force
  then have d: "dom ?tree = fst ` set counts" by (simp add: fold_upd_dom lv)
  have mem: "(s, cb) \<in> set ?W" if "?tree s = Some cb" for s cb
    using fold_upd_lookup [OF that] by simp
  have z: "(0::int) \<le> 0" "(0::int) < 2 ^ 0" by simp_all
  have bound: "0 \<le> c \<and> c < 2 ^ l" if "?tree s = Some (c, l)" for s c l
    using mktree_code_extends [OF ar z mem [OF that]] by simp
  have pf: "\<not> is_bit_prefix cb1 cb2"
    if t: "?tree s1 = Some cb1 \<and> ?tree s2 = Some cb2 \<and> s1 \<noteq> s2" for s1 s2 cb1 cb2
  proof
    assume p: "is_bit_prefix cb1 cb2"
    obtain c1 l1 where cb1: "cb1 = (c1, l1)" by (cases cb1)
    obtain c2 l2 where cb2: "cb2 = (c2, l2)" by (cases cb2)
    have t1: "?tree s1 = Some (c1, l1)" and t2: "?tree s2 = Some (c2, l2)" and neq: "s1 \<noteq> s2"
      using t cb1 cb2 by auto
    have b1: "0 \<le> c1" "c1 < 2 ^ l1" using bound [OF t1] by auto
    have b2: "0 \<le> c2" "c2 < 2 ^ l2" using bound [OF t2] by auto
    have "l1 \<le> l2 \<and> drop_bit (l2 - l1) c2 = c1"
      using is_bit_prefix_drop [OF p [unfolded cb1 cb2] b1 b2] .
    then show False
      using mktree_prefix_free [OF ar z mem [OF t1] mem [OF t2] neq] by simp
  qed
  show ?thesis using h d pf bound by blast
qed

lemma huffman_example_loop:
  "huffman_loop 2 [(5, Leaf (0::nat)), (2, Leaf 1), (1, Leaf 2)] =
     Some [(8, Internal [Leaf 0, Internal [Leaf 1, Leaf 2]])]"
  by (simp add: huffman_loop.simps huffman_step_def)

lemma huffman_example_tree:
  "mktree 1 (Internal [Leaf (0::nat), Internal [Leaf 1, Leaf 2]]) 0 0 =
     [(0, (0, 1)), (1, (2, 2)), (2, (3, 2))]"
  by (simp add: enumerate_eq_zip upt_rec)

theorem huffman_prefix_free_witness:
  "2 \<le> length [(0::nat, 5::int), (1, 2), (2, 1)] \<and>
   distinct (map fst [(0::nat, 5::int), (1, 2), (2, 1)]) \<and> 1 \<le> (1::nat) \<and>
   (\<exists>tree. huffman [(0::nat, 5), (1, 2), (2, 1)] 1 = Some (Inr tree) \<and>
      tree 0 = Some (0, 1) \<and> tree 1 = Some (2, 2) \<and> tree 2 = Some (3, 2) \<and>
      \<not> is_bit_prefix (0, 1) (2, 2) \<and> \<not> is_bit_prefix (2, 2) (3, 2))"
proof -
  have a: "2 \<le> length [(0::nat, 5::int), (1, 2), (2, 1)]" by simp
  have b: "distinct (map fst [(0::nat, 5::int), (1, 2), (2, 1)])" by simp
  have c: "1 \<le> (1::nat)" by simp
  obtain tree where h: "huffman [(0::nat, 5), (1, 2), (2, 1)] 1 = Some (Inr tree)"
    and pf: "\<forall>s1 s2 cb1 cb2. tree s1 = Some cb1 \<and> tree s2 = Some cb2 \<and> s1 \<noteq> s2 \<longrightarrow>
              \<not> is_bit_prefix cb1 cb2"
    using huffman_prefix_free [OF a b c] by blast
  have "huffman [(0::nat, 5), (1, 2), (2, 1)] 1 =
      Some (Inr (fold (\<lambda>(s, cb) tree. tree(s \<mapsto> cb)) [(0, (0, 1)), (1, (2, 2)), (2, (3, 2))] Map.empty))"
  proof -
    have code: "map (\<lambda>(val, count). (count, Leaf val)) [(0::nat, 5::int), (1, 2), (2, 1)] =
        [(5, Leaf 0), (2, Leaf 1), (1, Leaf 2)]"
      by simp
    show ?thesis
      unfolding huffman_def Let_def code power_one_right huffman_example_loop
      by (simp only: option.case list.case prod.case huffman_example_tree)
  qed
  then have t: "tree = fold (\<lambda>(s, cb) tree. tree(s \<mapsto> cb)) [(0, (0, 1)), (1, (2, 2)), (2, (3, 2))] Map.empty"
    using h by simp
  have t0: "tree 0 = Some (0, 1)" and t1: "tree 1 = Some (2, 2)" and t2: "tree 2 = Some (3, 2)"
    unfolding t by simp_all
  have "\<not> is_bit_prefix (0, 1) (2, 2)" using pf t0 t1 by (metis zero_neq_one)
  moreover have "\<not> is_bit_prefix (2, 2) (3, 2)" using pf t1 t2
    by (metis one_neq_zero numeral_eq_one_iff semiring_norm(85) one_eq_numeral_iff)
  ultimately show ?thesis using a b c h t0 t1 t2 by blast
qed

end
